theory Spec2Isabelle
  imports Main
begin

section \<open>Strings of the formatter\<close>

text \<open>
  The formatter of \<^verbatim>\<open>server/services/screenplayFormatter.js\<close> works on JavaScript
  strings, which are sequences of code units. The model has the code units below 256
  (Latin-1) as its characters, and a string is a list of them. On these characters the
  model follows the language standard: white space (what \<^verbatim>\<open>trim\<close> strips and \<^verbatim>\<open>\s\<close>
  matches) is tab, line feed, vertical tab, form feed, carriage return, space and the
  no-break space; the line terminators are line feed and carriage return;
  \<^verbatim>\<open>toUpperCase\<close> maps \<open>a\<close> to \<open>z\<close> and the accented letters from 0xE0 to 0xFE
  (without the division sign 0xF7) to the letters 32 places before them. Three
  characters have an uppercase form that is no character of the model: the micro sign
  0xB5, the sharp s 0xDF and the y with diaeresis 0xFF. The model leaves them as they
  are, and the statements that depend on uppercase forms are made for strings without
  them (\<open>upperCaseModelled\<close>).
\<close>

definition lowerLetters :: string where
  "lowerLetters = ''abcdefghijklmnopqrstuvwxyz''"

definition upperLetters :: string where
  "upperLetters = ''ABCDEFGHIJKLMNOPQRSTUVWXYZ''"

definition lowerLatin1 :: string where
  "lowerLatin1 =
     [CHR 0xE0, CHR 0xE1, CHR 0xE2, CHR 0xE3, CHR 0xE4, CHR 0xE5, CHR 0xE6, CHR 0xE7,
      CHR 0xE8, CHR 0xE9, CHR 0xEA, CHR 0xEB, CHR 0xEC, CHR 0xED, CHR 0xEE, CHR 0xEF,
      CHR 0xF0, CHR 0xF1, CHR 0xF2, CHR 0xF3, CHR 0xF4, CHR 0xF5, CHR 0xF6, CHR 0xF8,
      CHR 0xF9, CHR 0xFA, CHR 0xFB, CHR 0xFC, CHR 0xFD, CHR 0xFE]"

definition upperLatin1 :: string where
  "upperLatin1 =
     [CHR 0xC0, CHR 0xC1, CHR 0xC2, CHR 0xC3, CHR 0xC4, CHR 0xC5, CHR 0xC6, CHR 0xC7,
      CHR 0xC8, CHR 0xC9, CHR 0xCA, CHR 0xCB, CHR 0xCC, CHR 0xCD, CHR 0xCE, CHR 0xCF,
      CHR 0xD0, CHR 0xD1, CHR 0xD2, CHR 0xD3, CHR 0xD4, CHR 0xD5, CHR 0xD6, CHR 0xD8,
      CHR 0xD9, CHR 0xDA, CHR 0xDB, CHR 0xDC, CHR 0xDD, CHR 0xDE]"

text \<open>\<^verbatim>\<open>[A-Z]\<close> and \<^verbatim>\<open>[0-9]\<close>.\<close>

definition isUpper :: "char \<Rightarrow> bool" where
  "isUpper c = (c \<in> set upperLetters)"

definition isDigit :: "char \<Rightarrow> bool" where
  "isDigit c = (c \<in> set ''0123456789'')"

definition isWhiteSpace :: "char \<Rightarrow> bool" where
  "isWhiteSpace c =
     (c \<in> set [CHR 0x09, CHR 0x0A, CHR 0x0B, CHR 0x0C, CHR 0x0D, CHR '' '', CHR 0xA0])"

definition isLineTerminator :: "char \<Rightarrow> bool" where
  "isLineTerminator c = (c = CHR 0x0A \<or> c = CHR 0x0D)"

text \<open>\<open>translate xs ys c\<close> is the letter of \<open>ys\<close> at the place of \<open>c\<close> in \<open>xs\<close>.\<close>

fun translate :: "string \<Rightarrow> string \<Rightarrow> char \<Rightarrow> char" where
  "translate (x # xs) (y # ys) c = (if c = x then y else translate xs ys c)"
| "translate _ _ c = c"

text \<open>The letters that have an uppercase form, and these forms in the same order.\<close>

definition caseLower :: string where
  "caseLower = lowerLetters @ lowerLatin1"

definition caseUpper :: string where
  "caseUpper = upperLetters @ upperLatin1"

definition toUpperCaseChar :: "char \<Rightarrow> char" where
  "toUpperCaseChar c = translate caseLower caseUpper c"

text \<open>The characters whose uppercase form is a character of the model.\<close>

definition upperCaseModelled :: "char \<Rightarrow> bool" where
  "upperCaseModelled c = (c \<notin> set [CHR 0xB5, CHR 0xDF, CHR 0xFF])"

definition toUpperCase :: "string \<Rightarrow> string" where
  "toUpperCase s = map toUpperCaseChar s"

definition trim :: "string \<Rightarrow> string" where
  "trim s = rev (dropWhile isWhiteSpace (rev (dropWhile isWhiteSpace s)))"

text \<open>\<^verbatim>\<open>s.split(sep)\<close> for a separator of one character: never the empty list.\<close>

fun str_split :: "char \<Rightarrow> string \<Rightarrow> string list" where
  "str_split sep [] = [[]]"
| "str_split sep (c # cs) =
     (if c = sep then [] # str_split sep cs
      else (case str_split sep cs of
              [] \<Rightarrow> [[c]]
            | w # ws \<Rightarrow> (c # w) # ws))"

text \<open>\<^verbatim>\<open>xs.join(sep)\<close>.\<close>

fun str_join :: "string \<Rightarrow> string list \<Rightarrow> string" where
  "str_join sep [] = []"
| "str_join sep [x] = x"
| "str_join sep (x # y # ys) = x @ sep @ str_join sep (y # ys)"

definition startsWith :: "string \<Rightarrow> string \<Rightarrow> bool" where
  "startsWith s p = (take (length p) s = p)"

definition endsWith :: "string \<Rightarrow> string \<Rightarrow> bool" where
  "endsWith s p = (length p \<le> length s \<and> drop (length s - length p) s = p)"

section \<open>Regular expressions\<close>

text \<open>
  The patterns of the formatter are anchored at both ends and are used through
  \<^verbatim>\<open>test\<close> only, so what matters is whether the whole line is in the language of the
  pattern. Patterns are terms of \<open>rx\<close>; \<open>test\<close> decides membership with derivatives.
\<close>

datatype rx =
    RNever
  | REps
  | RSym "char \<Rightarrow> bool"
  | RAlt rx rx
  | RSeq rx rx
  | RStar rx

fun nullable :: "rx \<Rightarrow> bool" where
  "nullable RNever = False"
| "nullable REps = True"
| "nullable (RSym P) = False"
| "nullable (RAlt r s) = (nullable r \<or> nullable s)"
| "nullable (RSeq r s) = (nullable r \<and> nullable s)"
| "nullable (RStar r) = True"

text \<open>
  The derivative is built with two constructors that drop the parts that can match
  nothing more, so that it stays small on a long line.
\<close>

fun rx_alt :: "rx \<Rightarrow> rx \<Rightarrow> rx" where
  "rx_alt RNever s = s"
| "rx_alt r RNever = r"
| "rx_alt r s = RAlt r s"

fun rx_seq :: "rx \<Rightarrow> rx \<Rightarrow> rx" where
  "rx_seq RNever s = RNever"
| "rx_seq REps s = s"
| "rx_seq r s = RSeq r s"

fun deriv :: "char \<Rightarrow> rx \<Rightarrow> rx" where
  "deriv c RNever = RNever"
| "deriv c REps = RNever"
| "deriv c (RSym P) = (if P c then REps else RNever)"
| "deriv c (RAlt r s) = rx_alt (deriv c r) (deriv c s)"
| "deriv c (RSeq r s) =
     (if nullable r then rx_alt (rx_seq (deriv c r) s) (deriv c s)
      else rx_seq (deriv c r) s)"
| "deriv c (RStar r) = rx_seq (deriv c r) (RStar r)"

definition test :: "rx \<Rightarrow> string \<Rightarrow> bool" where
  "test r s = nullable (fold deriv s r)"

text \<open>
  The meaning of a pattern: the set of the strings it matches in full. \<open>test\<close> is
  shown below to decide it.
\<close>

inductive_set star :: "string set \<Rightarrow> string set" for L :: "string set" where
  star_empty: "[] \<in> star L"
| star_more: "u \<in> L \<Longrightarrow> v \<in> star L \<Longrightarrow> u @ v \<in> star L"

definition conc :: "string set \<Rightarrow> string set \<Rightarrow> string set" where
  "conc A B = {w. \<exists>u v. w = u @ v \<and> u \<in> A \<and> v \<in> B}"

fun lang :: "rx \<Rightarrow> string set" where
  "lang RNever = {}"
| "lang REps = {[]}"
| "lang (RSym P) = {w. \<exists>c. w = [c] \<and> P c}"
| "lang (RAlt r s) = lang r \<union> lang s"
| "lang (RSeq r s) = conc (lang r) (lang s)"
| "lang (RStar r) = star (lang r)"

text \<open>One or more repetitions, \<^verbatim>\<open>r+\<close>.\<close>

definition plus_rx :: "rx \<Rightarrow> rx" where
  "plus_rx r = RSeq r (RStar r)"

text \<open>
  A literal string under the flag \<^verbatim>\<open>i\<close>: a character matches a letter of the
  pattern when both have the same uppercase form.
\<close>

definition lit_i :: "string \<Rightarrow> rx" where
  "lit_i s = foldr (\<lambda>c r. RSeq (RSym (\<lambda>x. toUpperCaseChar x = toUpperCaseChar c)) r) s REps"

text \<open>An alternation \<^verbatim>\<open>(A|B|C)\<close> of literal strings under the flag \<^verbatim>\<open>i\<close>.\<close>

definition alt_i :: "string list \<Rightarrow> rx" where
  "alt_i ws = foldr (\<lambda>w r. RAlt (lit_i w) r) ws RNever"

text \<open>The dot matches every character that is not a line terminator.\<close>

definition dot :: "rx" where
  "dot = RSym (\<lambda>c. \<not> isLineTerminator c)"

subsection \<open>The table of patterns\<close>

text \<open>
  \<^verbatim>\<open>sceneHeading: /^(INT|EXT|INT\/EXT|EXT\/INT)[\s\.]+(.*?)[\s\.-]+(DAY|NIGHT|MORNING|EVENING|DUSK|DAWN|CONTINUOUS|LATER|SAME TIME|MOMENTS LATER)$/i\<close>
\<close>

definition scenePrefixes :: "string list" where
  "scenePrefixes = [''INT'', ''EXT'', ''INT/EXT'', ''EXT/INT'']"

definition timeTokens :: "string list" where
  "timeTokens = [''DAY'', ''NIGHT'', ''MORNING'', ''EVENING'', ''DUSK'', ''DAWN'',
     ''CONTINUOUS'', ''LATER'', ''SAME TIME'', ''MOMENTS LATER'']"

definition regex_sceneHeading :: "rx" where
  "regex_sceneHeading =
     RSeq (alt_i scenePrefixes)
       (RSeq (plus_rx (RSym (\<lambda>c. isWhiteSpace c \<or> c = CHR ''.'')))
         (RSeq (RStar dot)
           (RSeq (plus_rx (RSym (\<lambda>c. isWhiteSpace c \<or> c = CHR ''.'' \<or> c = CHR ''-'')))
             (alt_i timeTokens))))"

text \<open>\<^verbatim>\<open>character: /^[A-Z][A-Z0-9\s\(\)]*$/\<close>\<close>

definition regex_character :: "rx" where
  "regex_character =
     RSeq (RSym isUpper)
       (RStar (RSym (\<lambda>c. isUpper c \<or> isDigit c \<or> isWhiteSpace c
                           \<or> c = CHR ''('' \<or> c = CHR '')'')))"

text \<open>\<^verbatim>\<open>parenthetical: /^\(.+\)$/\<close>\<close>

definition regex_parenthetical :: "rx" where
  "regex_parenthetical =
     RSeq (RSym (\<lambda>c. c = CHR ''('')) (RSeq (plus_rx dot) (RSym (\<lambda>c. c = CHR '')'')))"

text \<open>
  \<^verbatim>\<open>transition: /^(FADE|CUT|DISSOLVE|SMASH|WIPE|FADE TO BLACK|MATCH CUT|TIME CUT).*$/i\<close>
\<close>

definition transitionKeywords :: "string list" where
  "transitionKeywords = [''FADE'', ''CUT'', ''DISSOLVE'', ''SMASH'', ''WIPE'',
     ''FADE TO BLACK'', ''MATCH CUT'', ''TIME CUT'']"

definition regex_transition :: "rx" where
  "regex_transition = RSeq (alt_i transitionKeywords) (RStar dot)"

text \<open>
  The table has a fifth pattern, \<^verbatim>\<open>dialogue\<close>, that no method of the class tests; it is
  not part of the model.
\<close>

section \<open>Classification\<close>

datatype ElementKind =
  SceneHeading | Character | Parenthetical | Dialogue | Transition | Technical | Action

definition detectElementType :: "string \<Rightarrow> ElementKind" where
  "detectElementType line =
     (if test regex_sceneHeading line then SceneHeading
      else if test regex_character line \<and> length line < 50 then Character
      else if test regex_parenthetical line then Parenthetical
      else if test regex_transition line then Transition
      else if line = toUpperCase line \<and> length line > 3 then Technical
      else Action)"

section \<open>Rendering\<close>

definition formatSceneHeading :: "string \<Rightarrow> string" where
  "formatSceneHeading text = toUpperCase text"

definition formatCharacter :: "string \<Rightarrow> string" where
  "formatCharacter text = toUpperCase text"

definition formatParenthetical :: "string \<Rightarrow> string" where
  "formatParenthetical text =
     (let text1 = (if \<not> startsWith text ''('' then ''('' @ text else text);
          text2 = (if \<not> endsWith text1 '')'' then text1 @ '')'' else text1)
      in text2)"

definition formatTransition :: "string \<Rightarrow> string" where
  "formatTransition text = toUpperCase text"

definition formatTechnical :: "string \<Rightarrow> string" where
  "formatTechnical text = toUpperCase text"

text \<open>
  The loop of \<^verbatim>\<open>_wrapText\<close> over the words: the state is the pair of \<^verbatim>\<open>result\<close>
  and \<^verbatim>\<open>line\<close>.
\<close>

definition wrapStep :: "nat \<Rightarrow> string \<Rightarrow> string \<times> string \<Rightarrow> string \<times> string" where
  "wrapStep width word st =
     (case st of (result, line) \<Rightarrow>
        if length (line @ word) > width
        then (result @ trim line @ [CHR 0x0A], word @ '' '')
        else (result, line @ word @ '' ''))"

definition wrapText :: "string \<Rightarrow> nat \<Rightarrow> string" where
  "wrapText text width =
     (if length text \<le> width then text
      else (case fold (wrapStep width) (str_split (CHR '' '') text) ([], []) of
              (result, line) \<Rightarrow> result @ trim line))"

definition formatDialogue :: "string \<Rightarrow> string" where
  "formatDialogue text = wrapText text 35"

definition formatAction :: "string \<Rightarrow> string" where
  "formatAction text = wrapText text 60"

text \<open>
  \<^verbatim>\<open>_formatElement\<close>: the type is a kind or \<^verbatim>\<open>null\<close> (the initial value of
  \<^verbatim>\<open>currentElement\<close>), which takes the default branch of the switch.
\<close>

fun formatElement :: "ElementKind option \<Rightarrow> string \<Rightarrow> string" where
  "formatElement (Some SceneHeading) text = formatSceneHeading text"
| "formatElement (Some Character) text = formatCharacter text"
| "formatElement (Some Parenthetical) text = formatParenthetical text"
| "formatElement (Some Dialogue) text = formatDialogue text"
| "formatElement (Some Transition) text = formatTransition text"
| "formatElement (Some Technical) text = formatTechnical text"
| "formatElement (Some Action) text = formatAction text"
| "formatElement None text = formatAction text"

section \<open>Assembly of the document\<close>

text \<open>
  The state of the loop of \<^verbatim>\<open>formatScreenplay\<close>. The field \<open>trace\<close> is a ghost: it
  records, in order, every blank separator pushed and the two arguments of every call of
  \<^verbatim>\<open>_formatElement\<close>; nothing is computed from it.
\<close>

datatype item = Blank | Block "ElementKind option" string

record fstate =
  formattedLines :: "string list"
  currentElement :: "ElementKind option"
  lineBuffer :: "string list"
  trace :: "item list"

definition initial :: fstate where
  "initial = \<lparr>formattedLines = [], currentElement = None, lineBuffer = [], trace = []\<rparr>"

text \<open>
  \<^verbatim>\<open>formattedLines.push(this._formatElement(currentElement, lineBuffer.join(' ')))\<close>
\<close>

definition pushElement :: "fstate \<Rightarrow> fstate" where
  "pushElement st =
     st\<lparr>formattedLines :=
          formattedLines st @ [formatElement (currentElement st) (str_join '' '' (lineBuffer st))],
        trace := trace st @ [Block (currentElement st) (str_join '' '' (lineBuffer st))]\<rparr>"

text \<open>The body of the loop for the raw line \<^verbatim>\<open>lines[i]\<close>.\<close>

definition processLine :: "string \<Rightarrow> fstate \<Rightarrow> fstate" where
  "processLine raw st =
     (let line = trim raw in
      if line = [] then
        (let st1 = (if lineBuffer st \<noteq> []
                    then (pushElement st)\<lparr>lineBuffer := [], currentElement := None\<rparr>
                    else st)
         in st1\<lparr>formattedLines := formattedLines st1 @ [[]], trace := trace st1 @ [Blank]\<rparr>)
      else
        (let elementType = detectElementType line;
             st1 = (if Some elementType \<noteq> currentElement st
                    then (if lineBuffer st \<noteq> []
                          then (pushElement st)\<lparr>lineBuffer := []\<rparr>
                          else st)\<lparr>currentElement := Some elementType\<rparr>
                    else st)
         in st1\<lparr>lineBuffer := lineBuffer st1 @ [line]\<rparr>))"

text \<open>
  Reading \<^verbatim>\<open>lines[i]\<close> gives \<^verbatim>\<open>undefined\<close> outside the array, and calling
  \<^verbatim>\<open>trim\<close> on it throws a \<^verbatim>\<open>TypeError\<close>.
\<close>

datatype error = TypeError

definition element :: "'a list \<Rightarrow> nat \<Rightarrow> 'a option" where
  "element xs i = (if i < length xs then Some (xs ! i) else None)"

function loop :: "string list \<Rightarrow> nat \<Rightarrow> fstate \<Rightarrow> error + fstate" where
  "loop lines i st =
     (if i < length lines
      then (case element lines i of
              None \<Rightarrow> Inl TypeError
            | Some raw \<Rightarrow> loop lines (i + 1) (processLine raw st))
      else Inr st)"
  by pat_completeness auto
termination
  by (relation "measure (\<lambda>(lines, i, st). length lines - i)") auto

declare loop.simps [simp del]

text \<open>The whole run: the loop, then the element still in the buffer.\<close>

definition flushLast :: "fstate \<Rightarrow> fstate" where
  "flushLast st = (if lineBuffer st \<noteq> [] then pushElement st else st)"

definition run :: "string \<Rightarrow> error + fstate" where
  "run rawScreenplay =
     (case loop (str_split (CHR 0x0A) rawScreenplay) 0 initial of
        Inl e \<Rightarrow> Inl e
      | Inr st \<Rightarrow> Inr (flushLast st))"

definition formatScreenplay :: "string \<Rightarrow> error + string" where
  "formatScreenplay rawScreenplay =
     (case run rawScreenplay of
        Inl e \<Rightarrow> Inl e
      | Inr st \<Rightarrow> Inr (str_join [CHR 0x0A] (formattedLines st)))"

definition formatScene :: "string \<Rightarrow> error + string" where
  "formatScene rawScene = formatScreenplay rawScene"

text \<open>The blocks rendered during a run, with their kinds (read off the ghost field).\<close>

definition renderedItems :: "string \<Rightarrow> item list" where
  "renderedItems rawScreenplay =
     (case run rawScreenplay of Inl e \<Rightarrow> [] | Inr st \<Rightarrow> trace st)"

section \<open>Predicates of the verification\<close>

text \<open>What a ghost item stands for in \<^verbatim>\<open>formattedLines\<close>.\<close>

fun renderItem :: "item \<Rightarrow> string" where
  "renderItem Blank = []"
| "renderItem (Block k text) = formatElement k text"

text \<open>A line as the loop buffers it: stripped, not empty, without a line feed.\<close>

definition bufferedLine :: "string \<Rightarrow> bool" where
  "bufferedLine l = (l \<noteq> [] \<and> trim l = l \<and> CHR 0x0A \<notin> set l)"

text \<open>The text of a block is the join of buffered lines that all have the block's kind.\<close>

definition blockOf :: "ElementKind option \<Rightarrow> string \<Rightarrow> string list \<Rightarrow> bool" where
  "blockOf k text ls =
     (ls \<noteq> [] \<and> text = str_join '' '' ls \<and>
      list_all (\<lambda>l. bufferedLine l \<and> Some (detectElementType l) = k) ls)"

fun wellFormedItem :: "item \<Rightarrow> bool" where
  "wellFormedItem Blank = True"
| "wellFormedItem (Block k text) = (\<exists>ls. blockOf k text ls)"

text \<open>Two blocks that follow each other without a blank between them differ in kind.\<close>

fun adjacentDiffer :: "item list \<Rightarrow> bool" where
  "adjacentDiffer (Block k t # Block k' t' # rest) =
     (k \<noteq> k' \<and> adjacentDiffer (Block k' t' # rest))"
| "adjacentDiffer (x # y # rest) = adjacentDiffer (y # rest)"
| "adjacentDiffer _ = True"

text \<open>The invariant of the loop.\<close>

definition invariant :: "fstate \<Rightarrow> bool" where
  "invariant st =
     (list_all (\<lambda>l. bufferedLine l \<and> Some (detectElementType l) = currentElement st)
        (lineBuffer st) \<and>
      list_all wellFormedItem (trace st) \<and>
      adjacentDiffer (trace (flushLast st)) \<and>
      (lineBuffer st = [] \<longrightarrow> trace st = [] \<or> last (trace st) = Blank) \<and>
      formattedLines st = map renderItem (trace st))"

text \<open>The kind of an item; a blank separator has none.\<close>

fun kindOf :: "item \<Rightarrow> ElementKind option" where
  "kindOf Blank = None"
| "kindOf (Block k text) = k"

text \<open>The lines that an item contributes to the formatted document.\<close>

definition itemLines :: "item \<Rightarrow> string list" where
  "itemLines it = str_split (CHR 0x0A) (renderItem it)"

text \<open>
  A block is stable when every line of its rendering is filled and is classified as the
  block was, and when these lines, joined with single spaces and rendered again as the
  same kind, give the same rendering.
\<close>

fun stableItem :: "item \<Rightarrow> bool" where
  "stableItem Blank = True"
| "stableItem (Block k text) =
     (list_all (\<lambda>l. l \<noteq> [] \<and> Some (detectElementType l) = k)
        (str_split (CHR 0x0A) (formatElement k text)) \<and>
      formatElement k (str_join '' '' (str_split (CHR 0x0A) (formatElement k text)))
        = formatElement k text)"

text \<open>The item that a second run makes of the lines of an item.\<close>

fun rerunItem :: "item \<Rightarrow> item" where
  "rerunItem Blank = Blank"
| "rerunItem (Block k text) = Block k (str_join '' '' (str_split (CHR 0x0A) (formatElement k text)))"

text \<open>
  The lines of \<^verbatim>\<open>_wrapText\<close> as the loop builds them, before they are stripped: the
  lines it closes, then the last one.
\<close>

fun wrapLines :: "nat \<Rightarrow> string list \<Rightarrow> string \<Rightarrow> string list" where
  "wrapLines width [] line = [line]"
| "wrapLines width (word # ws) line =
     (if length (line @ word) > width
      then line # wrapLines width ws (word @ '' '')
      else wrapLines width ws (line @ word @ '' ''))"

section \<open>The claims in the words of the specification\<close>

text \<open>
  The predicates of this section follow the words of the specification, not the code;
  they are what the code is compared with.
\<close>

text \<open>The number of times \<open>c\<close> is repeated at the start, and at the end, of a string.\<close>

definition leadingRun :: "char \<Rightarrow> string \<Rightarrow> nat" where
  "leadingRun c s = length (takeWhile (\<lambda>x. x = c) s)"

definition trailingRun :: "char \<Rightarrow> string \<Rightarrow> nat" where
  "trailingRun c s = leadingRun c (rev s)"

text \<open>
  ``The entire line is uppercase letters, digits, spaces, and parentheses only, and the
  line length is below 50 characters.''
\<close>

definition specCharacterRule :: "string \<Rightarrow> bool" where
  "specCharacterRule line =
     (list_all (\<lambda>c. isUpper c \<or> isDigit c \<or> c = CHR '' '' \<or> c = CHR ''('' \<or> c = CHR '')'') line
      \<and> length line < 50)"

text \<open>
  ``The line starts with INT, EXT, INT/EXT or EXT/INT (optionally followed by a dot or
  white space) and is followed eventually by one of the time-of-day tokens, matched
  case-insensitively.''
\<close>

definition isInfix :: "string \<Rightarrow> string \<Rightarrow> bool" where
  "isInfix t s = list_ex (\<lambda>i. take (length t) (drop i s) = t) [0..<Suc (length s)]"

definition specSceneHeadingRule :: "string \<Rightarrow> bool" where
  "specSceneHeadingRule line =
     (let u = toUpperCase line
      in list_ex (\<lambda>p. startsWith u p \<and> list_ex (\<lambda>t. isInfix t (drop (length p) u)) timeTokens)
           scenePrefixes)"

text \<open>The number of blank lines of a text: the lines that are empty once stripped.\<close>

definition blankLineCount :: "string \<Rightarrow> nat" where
  "blankLineCount s = length (filter (\<lambda>l. trim l = []) (str_split (CHR 0x0A) s))"

text \<open>
  ``The words in the same order'': the words of a text are its longest runs of characters
  that are not white space.
\<close>

fun splitWhere :: "(char \<Rightarrow> bool) \<Rightarrow> string \<Rightarrow> string list" where
  "splitWhere P [] = [[]]"
| "splitWhere P (c # cs) =
     (if P c then [] # splitWhere P cs
      else (case splitWhere P cs of
              [] \<Rightarrow> [[c]]
            | w # ws \<Rightarrow> (c # w) # ws))"

definition wordsOf :: "string \<Rightarrow> string list" where
  "wordsOf s = filter (\<lambda>w. w \<noteq> []) (splitWhere isWhiteSpace s)"

text \<open>``Rejoining the wrapped lines with single spaces.''\<close>

definition rejoin :: "string \<Rightarrow> string" where
  "rejoin out = str_join '' '' (str_split (CHR 0x0A) out)"

section \<open>The reserved operations\<close>

text \<open>An issue is a value that nothing in the formatter looks into.\<close>

type_synonym issue = string

definition fixFormatIssues :: "string \<Rightarrow> issue list \<Rightarrow> string" where
  "fixFormatIssues screenplay issues = screenplay"

record validation =
  valid :: bool
  issues :: "issue list"

definition validateFormat :: "string \<Rightarrow> validation" where
  "validateFormat screenplay =
     (let lines = str_split (CHR 0x0A) screenplay;
          issues = []
      in \<lparr>valid = (length issues = 0), issues = issues\<rparr>)"

section \<open>The matcher decides the language\<close>

lemma nullable_lang: "nullable r \<longleftrightarrow> [] \<in> lang r"
  by (induction r) (auto simp: conc_def intro: star_empty)

lemma lang_rx_alt: "lang (rx_alt r s) = lang r \<union> lang s"
  by (induction r s rule: rx_alt.induct) auto

lemma conc_empty_left: "conc {} B = {}"
  by (simp add: conc_def)

lemma conc_eps_left: "conc {[]} B = B"
  by (auto simp: conc_def)

lemma lang_rx_seq: "lang (rx_seq r s) = conc (lang r) (lang s)"
  by (induction r s rule: rx_seq.induct) (simp_all add: conc_empty_left conc_eps_left)

lemma star_cons:
  "c # w \<in> star L \<longleftrightarrow> (\<exists>u v. w = u @ v \<and> c # u \<in> L \<and> v \<in> star L)"
proof
  assume "c # w \<in> star L"
  then show "\<exists>u v. w = u @ v \<and> c # u \<in> L \<and> v \<in> star L"
  proof (induction "c # w" arbitrary: w rule: star.induct)
    case (star_more u v)
    show ?case
    proof (cases u)
      case Nil
      with star_more show ?thesis by simp
    next
      case (Cons a u')
      with star_more show ?thesis by auto
    qed
  qed
next
  assume "\<exists>u v. w = u @ v \<and> c # u \<in> L \<and> v \<in> star L"
  then obtain u v where "w = u @ v" "c # u \<in> L" "v \<in> star L" by blast
  then show "c # w \<in> star L"
    using star_more [of "c # u" L v] by simp
qed

lemma conc_cons:
  "c # w \<in> conc A B \<longleftrightarrow>
     (\<exists>u v. w = u @ v \<and> c # u \<in> A \<and> v \<in> B) \<or> ([] \<in> A \<and> c # w \<in> B)"
  by (auto simp: conc_def Cons_eq_append_conv)

lemma lang_deriv: "lang (deriv c r) = {w. c # w \<in> lang r}"
proof (induction r)
  case (RSeq r s)
  then show ?case
    by (auto simp: lang_rx_alt lang_rx_seq conc_cons nullable_lang) (auto simp: conc_def)
next
  case (RStar r)
  then show ?case
    by (auto simp: lang_rx_seq star_cons) (auto simp: conc_def)
qed (auto simp: lang_rx_alt)

lemma test_lang: "test r s \<longleftrightarrow> s \<in> lang r"
  unfolding test_def
  by (induction s arbitrary: r) (simp_all add: nullable_lang lang_deriv)

section \<open>What the four patterns match\<close>

lemma star_sym: "star {w. \<exists>c. w = [c] \<and> P c} = {w. \<forall>c\<in>set w. P c}"
proof (rule set_eqI, rule iffI)
  fix w assume "w \<in> star {w. \<exists>c. w = [c] \<and> P c}"
  then show "w \<in> {w. \<forall>c\<in>set w. P c}"
    by (induction rule: star.induct) auto
next
  fix w assume "w \<in> {w. \<forall>c\<in>set w. P c}"
  then have "\<forall>c\<in>set w. P c" by simp
  then show "w \<in> star {w. \<exists>c. w = [c] \<and> P c}"
  proof (induction w)
    case Nil
    show ?case by (rule star_empty)
  next
    case (Cons a w)
    then have "[a] \<in> {w. \<exists>c. w = [c] \<and> P c}" and "w \<in> star {w. \<exists>c. w = [c] \<and> P c}"
      by simp_all
    then have "[a] @ w \<in> star {w. \<exists>c. w = [c] \<and> P c}" by (rule star_more)
    then show ?case by simp
  qed
qed

lemma conc_sym:
  "w \<in> conc {w. \<exists>c. w = [c] \<and> P c} B \<longleftrightarrow> (\<exists>c v. w = c # v \<and> P c \<and> v \<in> B)"
proof
  assume "w \<in> conc {w. \<exists>c. w = [c] \<and> P c} B"
  then show "\<exists>c v. w = c # v \<and> P c \<and> v \<in> B"
    by (auto simp: conc_def)
next
  assume "\<exists>c v. w = c # v \<and> P c \<and> v \<in> B"
  then obtain c v where "w = [c] @ v" "P c" "v \<in> B" by auto
  then show "w \<in> conc {w. \<exists>c. w = [c] \<and> P c} B"
    unfolding conc_def by blast
qed

lemma lang_star_sym: "lang (RStar (RSym P)) = {w. \<forall>c\<in>set w. P c}"
  by (simp add: star_sym)

lemma lang_plus_sym: "lang (plus_rx (RSym P)) = {w. w \<noteq> [] \<and> (\<forall>c\<in>set w. P c)}"
  unfolding plus_rx_def lang.simps star_sym
  by (auto simp: conc_def) (metis append_Cons append_Nil list.exhaust list.set_intros(1) list.set_intros(2))

lemma lang_lit_i: "lang (lit_i s) = {w. toUpperCase w = toUpperCase s}"
proof (induction s)
  case Nil
  show ?case by (simp add: lit_i_def toUpperCase_def)
next
  case (Cons a s)
  have "lit_i (a # s) = RSeq (RSym (\<lambda>x. toUpperCaseChar x = toUpperCaseChar a)) (lit_i s)"
    by (simp add: lit_i_def)
  with Cons show ?case
    by (auto simp: conc_sym toUpperCase_def Cons_eq_map_conv)
qed

lemma lang_alt_i: "lang (alt_i ws) = {w. \<exists>x\<in>set ws. toUpperCase w = toUpperCase x}"
proof (induction ws)
  case Nil
  show ?case by (simp add: alt_i_def)
next
  case (Cons a ws)
  have "alt_i (a # ws) = RAlt (lit_i a) (alt_i ws)" by (simp add: alt_i_def)
  with Cons show ?case by (auto simp: lang_lit_i)
qed

lemma test_character:
  "test regex_character line \<longleftrightarrow>
     (\<exists>c cs. line = c # cs \<and> isUpper c \<and>
        (\<forall>x\<in>set cs. isUpper x \<or> isDigit x \<or> isWhiteSpace x \<or> x = CHR ''('' \<or> x = CHR '')''))"
  unfolding test_lang regex_character_def lang.simps(5) lang_star_sym lang.simps(3)
  by (auto simp: conc_sym)

lemma test_parenthetical:
  "test regex_parenthetical line \<longleftrightarrow>
     (\<exists>m. line = CHR ''('' # m @ '')'' \<and> m \<noteq> [] \<and> (\<forall>x\<in>set m. \<not> isLineTerminator x))"
  unfolding test_lang regex_parenthetical_def dot_def lang.simps(5) lang_plus_sym
  by (auto simp: conc_def)

lemma test_transition:
  "test regex_transition line \<longleftrightarrow>
     (\<exists>p rest. line = p @ rest \<and> toUpperCase p \<in> toUpperCase ` set transitionKeywords \<and>
        (\<forall>x\<in>set rest. \<not> isLineTerminator x))"
  unfolding test_lang regex_transition_def dot_def lang.simps(5) lang_star_sym lang_alt_i
  by (auto simp: conc_def)

lemma test_sceneHeading:
  "test regex_sceneHeading line \<longleftrightarrow>
     (\<exists>p a m b t. line = p @ a @ m @ b @ t \<and>
        toUpperCase p \<in> toUpperCase ` set scenePrefixes \<and>
        a \<noteq> [] \<and> (\<forall>c\<in>set a. isWhiteSpace c \<or> c = CHR ''.'') \<and>
        (\<forall>c\<in>set m. \<not> isLineTerminator c) \<and>
        b \<noteq> [] \<and> (\<forall>c\<in>set b. isWhiteSpace c \<or> c = CHR ''.'' \<or> c = CHR ''-'') \<and>
        toUpperCase t \<in> toUpperCase ` set timeTokens)"
  unfolding test_lang regex_sceneHeading_def dot_def lang.simps(5) lang_star_sym lang_plus_sym
    lang_alt_i
  by (auto simp: conc_def) blast+

section \<open>The loop as a fold\<close>

lemma loop_fold:
  "i \<le> length lines \<Longrightarrow> loop lines i st = Inr (fold processLine (drop i lines) st)"
proof (induction "length lines - i" arbitrary: i st)
  case 0
  then show ?case by (simp add: loop.simps [of lines i st])
next
  case (Suc n)
  then have less: "i < length lines" by simp
  then have el: "element lines i = Some (lines ! i)" by (simp add: element_def)
  have "loop lines i st = loop lines (i + 1) (processLine (lines ! i) st)"
    using less el by (simp add: loop.simps [of lines i st])
  also have "\<dots> = Inr (fold processLine (drop (i + 1) lines) (processLine (lines ! i) st))"
    using Suc less by simp
  also have "\<dots> = Inr (fold processLine (drop i lines) st)"
    using less by (simp add: Cons_nth_drop_Suc [symmetric])
  finally show ?case .
qed

lemma run_fold:
  "run s = Inr (flushLast (fold processLine (str_split (CHR 0x0A) s) initial))"
  by (simp add: run_def loop_fold)

lemma formatScreenplay_fold:
  "formatScreenplay s =
     Inr (str_join [CHR 0x0A]
            (formattedLines (flushLast (fold processLine (str_split (CHR 0x0A) s) initial))))"
  by (simp add: formatScreenplay_def run_fold)

lemma renderedItems_fold:
  "renderedItems s = trace (flushLast (fold processLine (str_split (CHR 0x0A) s) initial))"
  by (simp add: renderedItems_def run_fold)

lemma detect_cases:
  "detectElementType line \<in> {SceneHeading, Character, Parenthetical, Transition, Technical, Action}"
  by (simp add: detectElementType_def)

lemma detect_not_Dialogue: "detectElementType line \<noteq> Dialogue"
  by (simp add: detectElementType_def)

section \<open>Facts about strings\<close>

subsection \<open>trim\<close>

lemma trim_Nil [simp]: "trim [] = []"
  by (simp add: trim_def)

lemma set_trim: "set (trim s) \<subseteq> set s"
proof -
  have "set (trim s) = set (dropWhile isWhiteSpace (rev (dropWhile isWhiteSpace s)))"
    by (simp add: trim_def)
  also have "\<dots> \<subseteq> set (rev (dropWhile isWhiteSpace s))" by (rule set_dropWhileD [THEN subsetI])
  also have "\<dots> \<subseteq> set s" using set_dropWhileD [of _ isWhiteSpace s] by auto
  finally show ?thesis .
qed

lemma dropWhile_same_length:
  "length (dropWhile P s) = length s \<Longrightarrow> dropWhile P s = s"
proof -
  assume l: "length (dropWhile P s) = length s"
  have "length (takeWhile P s) + length (dropWhile P s) = length s"
    by (metis length_append takeWhile_dropWhile_id)
  with l have "takeWhile P s = []" by simp
  then show ?thesis by (metis append_Nil takeWhile_dropWhile_id)
qed

lemma trim_fixed:
  "trim s = s \<longleftrightarrow> s = [] \<or> (\<not> isWhiteSpace (hd s) \<and> \<not> isWhiteSpace (last s))"
proof
  assume fixed: "trim s = s"
  show "s = [] \<or> (\<not> isWhiteSpace (hd s) \<and> \<not> isWhiteSpace (last s))"
  proof (cases "s = []")
    case True
    then show ?thesis by simp
  next
    case False
    let ?d = "dropWhile isWhiteSpace s"
    have "length (trim s) \<le> length ?d"
      unfolding trim_def using length_dropWhile_le [of isWhiteSpace "rev ?d"] by simp
    moreover have "length ?d \<le> length s" by (rule length_dropWhile_le)
    ultimately have "length ?d = length s" using fixed by simp
    then have d: "?d = s" by (rule dropWhile_same_length)
    then have h: "\<not> isWhiteSpace (hd s)" using False by (simp add: dropWhile_eq_self_iff)
    from fixed d have "rev (dropWhile isWhiteSpace (rev s)) = s" by (simp add: trim_def)
    then have "dropWhile isWhiteSpace (rev s) = rev s" by (metis rev_rev_ident)
    then have "\<not> isWhiteSpace (hd (rev s))" using False by (simp add: dropWhile_eq_self_iff)
    then have "\<not> isWhiteSpace (last s)" using False by (simp add: hd_rev)
    with h show ?thesis by simp
  qed
next
  assume "s = [] \<or> (\<not> isWhiteSpace (hd s) \<and> \<not> isWhiteSpace (last s))"
  then show "trim s = s"
  proof
    assume "s = []"
    then show ?thesis by simp
  next
    assume a: "\<not> isWhiteSpace (hd s) \<and> \<not> isWhiteSpace (last s)"
    show ?thesis
    proof (cases "s = []")
      case True
      then show ?thesis by simp
    next
      case False
      from a have d: "dropWhile isWhiteSpace s = s" by (simp add: dropWhile_eq_self_iff)
      from a False have "dropWhile isWhiteSpace (rev s) = rev s"
        by (simp add: dropWhile_eq_self_iff hd_rev)
      with d show ?thesis by (simp add: trim_def)
    qed
  qed
qed

lemma trim_shape:
  "trim s = [] \<or> (\<not> isWhiteSpace (hd (trim s)) \<and> \<not> isWhiteSpace (last (trim s)))"
proof -
  let ?d = "dropWhile isWhiteSpace s"
  let ?e = "dropWhile isWhiteSpace (rev ?d)"
  have t: "trim s = rev ?e" by (simp add: trim_def)
  show ?thesis
  proof (cases "?e = []")
    case True
    then show ?thesis by (simp add: t)
  next
    case False
    then have he: "\<not> isWhiteSpace (hd ?e)" by (rule hd_dropWhile)
    from False have dn: "?d \<noteq> []" by (cases "?d = []") simp_all
    then have hd: "\<not> isWhiteSpace (hd ?d)" by (rule hd_dropWhile)
    obtain zs where sfx: "rev ?d = zs @ ?e"
      by (metis takeWhile_dropWhile_id)
    from False sfx have "last ?e = last (rev ?d)" by (metis last_appendR)
    also have "\<dots> = hd ?d" using dn by (simp add: last_rev)
    finally have le: "\<not> isWhiteSpace (last ?e)" using hd by simp
    from False he le show ?thesis by (simp add: t hd_rev last_rev)
  qed
qed

lemma trim_idem: "trim (trim s) = trim s"
  using trim_shape [of s] by (auto simp: trim_fixed)

lemma bufferedLine_trim:
  "trim raw \<noteq> [] \<Longrightarrow> CHR 0x0A \<notin> set raw \<Longrightarrow> bufferedLine (trim raw)"
  using set_trim [of raw] by (auto simp: bufferedLine_def trim_idem)

subsection \<open>join\<close>

lemma str_join_Cons:
  "str_join sep (x # xs) = (if xs = [] then x else x @ sep @ str_join sep xs)"
  by (cases xs) simp_all

lemma str_join_snoc:
  "str_join sep (xs @ [x]) = (if xs = [] then x else str_join sep xs @ sep @ x)"
  by (induction sep xs rule: str_join.induct) simp_all

lemma hd_str_join: "xs \<noteq> [] \<Longrightarrow> hd xs \<noteq> [] \<Longrightarrow> hd (str_join sep xs) = hd (hd xs)"
  by (cases xs) (simp_all add: str_join_Cons)

lemma last_str_join:
  "xs \<noteq> [] \<Longrightarrow> last xs \<noteq> [] \<Longrightarrow> last (str_join sep xs) = last (last xs)"
  by (cases xs rule: rev_cases) (simp_all add: str_join_snoc)

lemma set_str_join: "set (str_join sep xs) \<subseteq> set sep \<union> \<Union> (set ` set xs)"
  by (induction sep xs rule: str_join.induct) auto

lemma bufferedLine_join:
  assumes "ls \<noteq> []" and "list_all bufferedLine ls"
  shows "bufferedLine (str_join '' '' ls)"
proof -
  from assms have h: "bufferedLine (hd ls)" and l: "bufferedLine (last ls)"
    by (simp_all add: list_all_iff)
  then have hn: "hd ls \<noteq> []" and ln: "last ls \<noteq> []" by (simp_all add: bufferedLine_def)
  have ne: "str_join '' '' ls \<noteq> []"
    using assms(1) hn by (cases ls) (auto simp: str_join_Cons)
  have "\<not> isWhiteSpace (hd (hd ls))" and "\<not> isWhiteSpace (last (last ls))"
    using h l hn ln by (auto simp: bufferedLine_def trim_fixed)
  then have "trim (str_join '' '' ls) = str_join '' '' ls"
    using assms(1) hn ln by (simp add: trim_fixed hd_str_join last_str_join)
  moreover have "CHR 0x0A \<notin> set (str_join '' '' ls)"
    using set_str_join [of "'' ''" ls] assms(2) by (auto simp: list_all_iff bufferedLine_def)
  ultimately show ?thesis using ne by (simp add: bufferedLine_def)
qed

lemma blockOf_bufferedLine: "blockOf k text ls \<Longrightarrow> bufferedLine text"
  unfolding blockOf_def by (auto intro: bufferedLine_join simp: list_all_iff)

subsection \<open>Adjacent blocks\<close>

lemma adjacentDiffer_snoc_Blank: "adjacentDiffer (ys @ [Blank]) = adjacentDiffer ys"
proof (induction ys)
  case Nil
  show ?case by simp
next
  case (Cons a ys)
  show ?case
  proof (cases ys)
    case Nil
    then show ?thesis by (cases a) auto
  next
    case (Cons b zs)
    with Cons.IH show ?thesis by (cases a; cases b) auto
  qed
qed

lemma adjacentDiffer_snoc_Block:
  "adjacentDiffer (ys @ [Block k t]) =
     (adjacentDiffer ys \<and> (ys = [] \<or> last ys = Blank \<or> (\<exists>k' t'. last ys = Block k' t' \<and> k' \<noteq> k)))"
proof (induction ys)
  case Nil
  show ?case by simp
next
  case (Cons a ys)
  show ?case
  proof (cases ys)
    case Nil
    then show ?thesis by (cases a) auto
  next
    case (Cons b zs)
    with Cons.IH show ?thesis by (cases a; cases b) auto
  qed
qed

section \<open>The invariant holds\<close>

lemma adjacentDiffer_snoc2_Blank:
  "adjacentDiffer (ys @ [x, Blank]) = adjacentDiffer (ys @ [x])"
  using adjacentDiffer_snoc_Blank [of "ys @ [x]"] by simp

lemma adjacentDiffer_snoc2_Block:
  "adjacentDiffer (ys @ [Block k t, Block k' t']) = (adjacentDiffer (ys @ [Block k t]) \<and> k \<noteq> k')"
  using adjacentDiffer_snoc_Block [of "ys @ [Block k t]" k' t'] by auto

lemma invariant_initial: "invariant initial"
  by (simp add: invariant_def initial_def flushLast_def)

lemma wellFormed_pending:
  assumes "lineBuffer st \<noteq> []"
    and "list_all (\<lambda>l. bufferedLine l \<and> Some (detectElementType l) = currentElement st) (lineBuffer st)"
  shows "wellFormedItem (Block (currentElement st) (str_join '' '' (lineBuffer st)))"
  using assms by (auto simp: blockOf_def)

lemma invariant_processLine:
  assumes inv: "invariant st" and nl: "CHR 0x0A \<notin> set raw"
  shows "invariant (processLine raw st)"
proof (cases "trim raw = []")
  case True
  show ?thesis
  proof (cases "lineBuffer st = []")
    case e: True
    with True inv show ?thesis
      by (simp add: invariant_def processLine_def Let_def flushLast_def adjacentDiffer_snoc_Blank)
  next
    case ne: False
    with inv have "wellFormedItem (Block (currentElement st) (str_join '' '' (lineBuffer st)))"
      by (intro wellFormed_pending) (simp_all add: invariant_def)
    with True ne inv show ?thesis
      by (simp add: invariant_def processLine_def Let_def flushLast_def pushElement_def
          adjacentDiffer_snoc2_Blank)
  qed
next
  case False
  with nl have bl: "bufferedLine (trim raw)" by (simp add: bufferedLine_trim)
  let ?e = "detectElementType (trim raw)"
  show ?thesis
  proof (cases "Some ?e = currentElement st")
    case same: True
    show ?thesis
    proof (cases "lineBuffer st = []")
      case e: True
      with False same inv bl show ?thesis
        by (auto simp: invariant_def processLine_def Let_def flushLast_def pushElement_def
            adjacentDiffer_snoc_Block)
    next
      case ne: False
      with False same inv bl show ?thesis
        by (auto simp: invariant_def processLine_def Let_def flushLast_def pushElement_def
            adjacentDiffer_snoc_Block)
    qed
  next
    case diff: False
    show ?thesis
    proof (cases "lineBuffer st = []")
      case e: True
      with False diff inv bl show ?thesis
        by (auto simp: invariant_def processLine_def Let_def flushLast_def pushElement_def
            adjacentDiffer_snoc_Block)
    next
      case ne: False
      with inv have "wellFormedItem (Block (currentElement st) (str_join '' '' (lineBuffer st)))"
        by (intro wellFormed_pending) (simp_all add: invariant_def)
      with False diff ne inv bl show ?thesis
        by (auto simp: invariant_def processLine_def Let_def flushLast_def pushElement_def
            adjacentDiffer_snoc2_Block)
    qed
  qed
qed

lemma invariant_fold:
  "invariant st \<Longrightarrow> \<forall>raw\<in>set lines. CHR 0x0A \<notin> set raw \<Longrightarrow>
   invariant (fold processLine lines st)"
  by (induction lines arbitrary: st) (simp_all add: invariant_processLine)

lemma str_split_nonempty: "str_split sep s \<noteq> []"
  by (induction s) (auto split: list.splits)

lemma str_split_free: "w \<in> set (str_split sep s) \<Longrightarrow> sep \<notin> set w"
  by (induction s arbitrary: w) (auto split: list.splits if_splits)

lemma invariant_lines:
  "invariant (fold processLine (str_split (CHR 0x0A) s) initial)"
  by (intro invariant_fold invariant_initial ballI str_split_free)

text \<open>What the invariant gives for the finished run.\<close>

lemma invariant_flushLast:
  assumes "invariant st"
  shows "list_all wellFormedItem (trace (flushLast st))"
    and "adjacentDiffer (trace (flushLast st))"
    and "formattedLines (flushLast st) = map renderItem (trace (flushLast st))"
proof -
  show "adjacentDiffer (trace (flushLast st))" using assms by (simp add: invariant_def)
  show "list_all wellFormedItem (trace (flushLast st))"
  proof (cases "lineBuffer st = []")
    case True
    with assms show ?thesis by (simp add: invariant_def flushLast_def)
  next
    case False
    with assms have "wellFormedItem (Block (currentElement st) (str_join '' '' (lineBuffer st)))"
      by (intro wellFormed_pending) (simp_all add: invariant_def)
    with False assms show ?thesis by (simp add: invariant_def flushLast_def pushElement_def)
  qed
  show "formattedLines (flushLast st) = map renderItem (trace (flushLast st))"
    using assms by (simp add: invariant_def flushLast_def pushElement_def)
qed

lemma renderedItems_wellFormed: "list_all wellFormedItem (renderedItems s)"
  unfolding renderedItems_fold by (rule invariant_flushLast(1) [OF invariant_lines])

section \<open>Kinds and blocks of a run\<close>

lemma startsWith_char: "startsWith s [c] \<longleftrightarrow> s \<noteq> [] \<and> hd s = c"
  by (cases s) (auto simp: startsWith_def)

lemma endsWith_char: "endsWith s [c] \<longleftrightarrow> s \<noteq> [] \<and> last s = c"
proof (cases s rule: rev_cases)
  case Nil
  then show ?thesis by (simp add: endsWith_def)
next
  case (snoc ys y)
  then show ?thesis by (auto simp: endsWith_def)
qed

lemma formatParenthetical_fixed:
  "startsWith text ''('' \<Longrightarrow> endsWith text '')'' \<Longrightarrow> formatParenthetical text = text"
  by (simp add: formatParenthetical_def)

lemma detect_Parenthetical_test:
  "detectElementType l = Parenthetical \<Longrightarrow> test regex_parenthetical l"
  by (simp add: detectElementType_def split: if_splits)

lemma test_parenthetical_ends:
  "test regex_parenthetical l \<Longrightarrow> l \<noteq> [] \<and> hd l = CHR ''('' \<and> last l = CHR '')''"
  by (auto simp: test_parenthetical)

lemma renderedItems_block:
  assumes "Block k text \<in> set (renderedItems s)"
  shows "\<exists>ls. blockOf k text ls"
proof -
  from renderedItems_wellFormed [of s] assms have "wellFormedItem (Block k text)"
    unfolding list_all_iff by (rule bspec)
  then show ?thesis by simp
qed

text \<open>
  Claim C7. For every line the classifier returns one of the six kinds scene heading,
  character, parenthetical, transition, technical and action, and never dialogue; so
  no run of \<^verbatim>\<open>formatScreenplay\<close> calls \<^verbatim>\<open>_formatElement\<close> with the kind
  dialogue, whatever the input: the branch that wraps at 35 columns is not reached.
  The ghost trace is the list of these calls, and the lines pushed are its rendering.
\<close>

theorem dialogue_branch_unreachable:
  "detectElementType line \<in> {SceneHeading, Character, Parenthetical, Transition, Technical, Action}
   \<and> detectElementType line \<noteq> Dialogue
   \<and> Block (Some Dialogue) text \<notin> set (renderedItems rawScreenplay)
   \<and> (\<exists>st. run rawScreenplay = Inr st \<and> renderedItems rawScreenplay = trace st
          \<and> formattedLines st = map renderItem (trace st))"
proof -
  have "Block (Some Dialogue) text \<notin> set (renderedItems rawScreenplay)"
  proof
    assume "Block (Some Dialogue) text \<in> set (renderedItems rawScreenplay)"
    then obtain ls where "blockOf (Some Dialogue) text ls"
      using renderedItems_block by blast
    then obtain l where "detectElementType l = Dialogue"
      by (cases ls) (auto simp: blockOf_def)
    then show False by (simp add: detect_not_Dialogue)
  qed
  moreover have "\<exists>st. run rawScreenplay = Inr st \<and> renderedItems rawScreenplay = trace st
          \<and> formattedLines st = map renderItem (trace st)"
    using invariant_flushLast(3) [OF invariant_lines [of rawScreenplay]]
    by (simp add: run_fold renderedItems_fold)
  ultimately show ?thesis
    using detect_cases [of line] detect_not_Dialogue [of line] by blast
qed

text \<open>
  Claim C8. Classification and rendering are total. For every input string
  \<^verbatim>\<open>formatScreenplay\<close> returns a string (the read of \<^verbatim>\<open>lines[i]\<close> never leaves
  the array, so nothing throws), the empty input gives the empty output, and every line
  gets a kind: it is an action exactly when no rule before the last applies.
\<close>

theorem formatScreenplay_total:
  "(\<exists>out. formatScreenplay rawScreenplay = Inr out)
   \<and> formatScreenplay [] = Inr []
   \<and> detectElementType line \<in> {SceneHeading, Character, Parenthetical, Transition, Technical, Action}
   \<and> (detectElementType line = Action) =
       (\<not> test regex_sceneHeading line
        \<and> \<not> (test regex_character line \<and> length line < 50)
        \<and> \<not> test regex_parenthetical line
        \<and> \<not> test regex_transition line
        \<and> \<not> (line = toUpperCase line \<and> length line > 3))"
proof -
  have "formatScreenplay [] = Inr []"
    by (simp add: formatScreenplay_fold processLine_def flushLast_def initial_def)
  moreover have "(detectElementType line = Action) =
       (\<not> test regex_sceneHeading line
        \<and> \<not> (test regex_character line \<and> length line < 50)
        \<and> \<not> test regex_parenthetical line
        \<and> \<not> test regex_transition line
        \<and> \<not> (line = toUpperCase line \<and> length line > 3))"
    by (simp add: detectElementType_def)
  ultimately show ?thesis
    using detect_cases [of line] by (simp add: formatScreenplay_fold)
qed

lemma blockOf_Parenthetical:
  assumes b: "blockOf (Some Parenthetical) text ls"
  shows "startsWith text ''(''" and "endsWith text '')''"
    and "list_all (test regex_parenthetical) ls"
proof -
  from b have ne: "ls \<noteq> []" and tx: "text = str_join '' '' ls"
    and all: "list_all (test regex_parenthetical) ls"
    by (auto simp: blockOf_def list_all_iff intro: detect_Parenthetical_test)
  from ne all have "test regex_parenthetical (hd ls)" "test regex_parenthetical (last ls)"
    by (simp_all add: list_all_iff)
  then have h: "hd ls \<noteq> [] \<and> hd (hd ls) = CHR ''(''" and l: "last ls \<noteq> [] \<and> last (last ls) = CHR '')''"
    by (simp_all add: test_parenthetical_ends)
  have tne: "text \<noteq> []" using blockOf_bufferedLine [OF b] by (simp add: bufferedLine_def)
  show "startsWith text ''(''" using tne ne h by (simp add: tx startsWith_char hd_str_join)
  show "endsWith text '')''" using tne ne l by (simp add: tx endsWith_char last_str_join)
  show "list_all (test regex_parenthetical) ls" by (rule all)
qed

text \<open>
  Claim C10. Every block that a run of \<^verbatim>\<open>formatScreenplay\<close> renders as a
  parenthetical is the join, with single spaces, of lines that each match the
  parenthetical pattern; its text begins with an opening and ends with a closing
  parenthesis, so \<^verbatim>\<open>_formatParenthetical\<close> takes neither of its inserting branches
  and returns the text as it is.
\<close>

theorem parenthetical_blocks_parenthesised:
  assumes "Block (Some Parenthetical) text \<in> set (renderedItems rawScreenplay)"
  shows "startsWith text ''('' \<and> endsWith text '')'' \<and> formatParenthetical text = text
         \<and> (\<exists>ls. ls \<noteq> [] \<and> text = str_join '' '' ls \<and> list_all (test regex_parenthetical) ls)"
proof -
  from assms obtain ls where b: "blockOf (Some Parenthetical) text ls"
    using renderedItems_block by blast
  from b have "ls \<noteq> []" and "text = str_join '' '' ls" by (simp_all add: blockOf_def)
  with blockOf_Parenthetical [OF b] show ?thesis
    by (auto simp: formatParenthetical_fixed)
qed

theorem parenthetical_blocks_parenthesised_witness:
  "Block (Some Parenthetical) ''(quietly) (to himself)''
     \<in> set (renderedItems ''JOHN\<newline>(quietly)\<newline>(to himself)\<newline>Hello.'')
   \<and> startsWith ''(quietly) (to himself)'' ''(''
   \<and> endsWith ''(quietly) (to himself)'' '')''
   \<and> formatParenthetical ''(quietly) (to himself)'' = ''(quietly) (to himself)''"
proof -
  have h: "Block (Some Parenthetical) ''(quietly) (to himself)''
     \<in> set (renderedItems ''JOHN\<newline>(quietly)\<newline>(to himself)\<newline>Hello.'')"
    by code_simp
  from parenthetical_blocks_parenthesised [OF h] h show ?thesis by simp
qed

section \<open>The parenthetical renderer\<close>

text \<open>
  Claim C4, as stated, fails: a text that already starts with two opening parentheses
  keeps both. The line \<^verbatim>\<open>((quietly))\<close> is classified as a parenthetical and is rendered
  unchanged, so the output starts with two opening and ends with two closing
  parentheses, not with exactly one.
\<close>

theorem parenthetical_exactly_one_counterexample:
  "formatScreenplay ''((quietly))'' = Inr ''((quietly))''
   \<and> renderedItems ''((quietly))'' = [Block (Some Parenthetical) ''((quietly))'']
   \<and> formatParenthetical ''((quietly))'' = ''((quietly))''
   \<and> leadingRun (CHR ''('') (formatParenthetical ''((quietly))'') = 2
   \<and> trailingRun (CHR '')'') (formatParenthetical ''((quietly))'') = 2"
  by code_simp

text \<open>
  Claim C4, amended. For every text the parenthetical rendering starts with an opening
  and ends with a closing parenthesis: one opening parenthesis is put in front when the
  text does not start with one, one closing parenthesis is appended when the text does
  not end with one, and nothing else is changed, so parentheses that the text already
  has are kept. \<^verbatim>\<open>(quietly)\<close> is rendered unchanged and \<^verbatim>\<open>quietly\<close> is rendered as
  \<^verbatim>\<open>(quietly)\<close>.
\<close>

theorem formatParenthetical_inserts_when_missing:
  "startsWith (formatParenthetical text) ''(''
   \<and> endsWith (formatParenthetical text) '')''
   \<and> formatParenthetical text =
       (if startsWith text ''('' then [] else ''('') @ text @ (if endsWith text '')'' then [] else '')'')
   \<and> formatParenthetical ''(quietly)'' = ''(quietly)''
   \<and> formatParenthetical ''quietly'' = ''(quietly)''"
proof -
  have a: "formatParenthetical ''(quietly)'' = ''(quietly)''" by code_simp
  have b: "formatParenthetical ''quietly'' = ''(quietly)''" by code_simp
  have c: "formatParenthetical text =
       (if startsWith text ''('' then [] else ''('') @ text @ (if endsWith text '')'' then [] else '')'')"
    by (cases "text" rule: rev_cases) (auto simp: formatParenthetical_def startsWith_char endsWith_char)
  have d: "startsWith (formatParenthetical text) ''(''"
    unfolding c by (cases "text") (auto simp: startsWith_char)
  have e: "endsWith (formatParenthetical text) '')''"
    unfolding c by (cases "text" rule: rev_cases) (auto simp: endsWith_char)
  from a b c d e show ?thesis by blast
qed

section \<open>The rules of the classifier\<close>

lemma upper_scenePrefixes: "toUpperCase ` set scenePrefixes = set scenePrefixes"
proof -
  have "map toUpperCase scenePrefixes = scenePrefixes" by code_simp
  then show ?thesis by (metis set_map)
qed

lemma upper_timeTokens: "toUpperCase ` set timeTokens = set timeTokens"
proof -
  have "map toUpperCase timeTokens = timeTokens" by code_simp
  then show ?thesis by (metis set_map)
qed

text \<open>
  Claim C5, as stated, fails in two places. The pattern asks for an uppercase letter at
  the start of the line: \<^verbatim>\<open>2ND GUARD\<close> is made of uppercase letters, digits and a
  space only, is shorter than 50 characters and is no scene heading, and it is
  classified as technical, not as a character. And the parenthetical pattern is looked
  at before the technical test: a line of 70 characters in upper case, with no
  time-of-day token and no transition keyword, that is wrapped in parentheses is
  classified as a parenthetical, not as technical.
\<close>

theorem character_rule_counterexample:
  "trim ''2ND GUARD'' = ''2ND GUARD''
   \<and> \<not> test regex_sceneHeading ''2ND GUARD''
   \<and> specCharacterRule ''2ND GUARD''
   \<and> detectElementType ''2ND GUARD'' = Technical
   \<and> length ''(THE ENORMOUS SPACESHIP SINKS SLOWLY THROUGH THE CLOUDS OVER THE PORT)'' = 70
   \<and> toUpperCase ''(THE ENORMOUS SPACESHIP SINKS SLOWLY THROUGH THE CLOUDS OVER THE PORT)''
       = ''(THE ENORMOUS SPACESHIP SINKS SLOWLY THROUGH THE CLOUDS OVER THE PORT)''
   \<and> \<not> list_ex (\<lambda>t. isInfix t ''(THE ENORMOUS SPACESHIP SINKS SLOWLY THROUGH THE CLOUDS OVER THE PORT)'')
         timeTokens
   \<and> \<not> list_ex (\<lambda>k. isInfix k ''(THE ENORMOUS SPACESHIP SINKS SLOWLY THROUGH THE CLOUDS OVER THE PORT)'')
         transitionKeywords
   \<and> detectElementType ''(THE ENORMOUS SPACESHIP SINKS SLOWLY THROUGH THE CLOUDS OVER THE PORT)''
       = Parenthetical"
  by code_simp

text \<open>
  Claim C5, amended. A line that does not match the scene heading pattern is classified
  as a character if and only if it starts with an uppercase letter from A to Z, the rest
  of it is made of such letters, digits, white space characters and parentheses only,
  and its length is below 50. A line of 50 characters or more that is equal to its
  uppercase form and matches neither the scene heading, nor the parenthetical, nor the
  transition pattern is classified as technical, not as a character; this part is stated
  for lines without the micro sign, the sharp s and the y with diaeresis, whose
  uppercase forms are no Latin-1 characters.
\<close>

theorem character_rule:
  "(\<not> test regex_sceneHeading line \<longrightarrow>
      (detectElementType line = Character) =
        ((\<exists>c cs. line = c # cs \<and> isUpper c \<and>
            list_all (\<lambda>x. isUpper x \<or> isDigit x \<or> isWhiteSpace x \<or> x = CHR ''('' \<or> x = CHR '')'') cs)
         \<and> length line < 50))
   \<and> (50 \<le> length line \<and> list_all upperCaseModelled line \<and> line = toUpperCase line
        \<and> \<not> test regex_sceneHeading line
        \<and> \<not> test regex_parenthetical line \<and> \<not> test regex_transition line
      \<longrightarrow> detectElementType line = Technical)"
  by (simp add: detectElementType_def test_character list_all_iff)

theorem character_rule_witness:
  "\<not> test regex_sceneHeading ''JOHN'' \<and> detectElementType ''JOHN'' = Character
   \<and> length ''THE ENORMOUS SPACESHIP SINKS SLOWLY THROUGH THE CLOUDS OVER THE HARBOR'' = 70
   \<and> detectElementType ''THE ENORMOUS SPACESHIP SINKS SLOWLY THROUGH THE CLOUDS OVER THE HARBOR''
       = Technical"
proof -
  let ?l = "''THE ENORMOUS SPACESHIP SINKS SLOWLY THROUGH THE CLOUDS OVER THE HARBOR''"
  have a: "\<not> test regex_sceneHeading ''JOHN''" by code_simp
  have b: "isUpper (CHR ''J'') \<and>
      list_all (\<lambda>x. isUpper x \<or> isDigit x \<or> isWhiteSpace x \<or> x = CHR ''('' \<or> x = CHR '')'') ''OHN''"
    by code_simp
  have c: "length ?l = 70" by simp
  have d: "?l = toUpperCase ?l" by code_simp
  have m: "list_all upperCaseModelled ?l" by code_simp
  have e: "\<not> test regex_sceneHeading ?l" by code_simp
  have f: "\<not> test regex_parenthetical ?l" by code_simp
  have g: "\<not> test regex_transition ?l" by code_simp
  from character_rule [of "''JOHN''"] a b have "detectElementType ''JOHN'' = Character" by simp
  moreover from character_rule [of ?l] c d e f g m have "detectElementType ?l = Technical"
    by simp
  ultimately show ?thesis using a c by simp
qed

text \<open>
  Claim C6, as stated, fails: the pattern asks for at least one dot or white space
  character after the prefix, then at least one white space character, dot or hyphen
  before the token, and the token must end the line. \<^verbatim>\<open>INT DAY\<close> starts with INT,
  followed by a space, followed by the token DAY, and it is classified as a character,
  not as a scene heading.
\<close>

theorem sceneHeading_rule_counterexample:
  "trim ''INT DAY'' = ''INT DAY''
   \<and> specSceneHeadingRule ''INT DAY''
   \<and> detectElementType ''INT DAY'' = Character"
  by code_simp

text \<open>
  Claim C6, amended. A line is classified as a scene heading if and only if it is made
  of, in this order: one of INT, EXT, INT/EXT, EXT/INT in any case; one or more dots or
  white space characters; any text without a line terminator; one or more white space
  characters, dots or hyphens; and, ending the line, one of the time-of-day tokens in
  any case. The white space characters are those that \<^verbatim>\<open>\s\<close> matches, the no-break
  space among them. No other rule is looked at before this one.
\<close>

theorem sceneHeading_rule:
  "(detectElementType line = SceneHeading) =
     (\<exists>p a m b t. line = p @ a @ m @ b @ t
        \<and> toUpperCase p \<in> set scenePrefixes
        \<and> a \<noteq> [] \<and> list_all (\<lambda>c. isWhiteSpace c \<or> c = CHR ''.'') a
        \<and> list_all (\<lambda>c. \<not> isLineTerminator c) m
        \<and> b \<noteq> [] \<and> list_all (\<lambda>c. isWhiteSpace c \<or> c = CHR ''.'' \<or> c = CHR ''-'') b
        \<and> toUpperCase t \<in> set timeTokens)"
proof -
  have "(detectElementType line = SceneHeading) = test regex_sceneHeading line"
    by (simp add: detectElementType_def)
  then show ?thesis
    by (simp add: test_sceneHeading upper_scenePrefixes upper_timeTokens list_all_iff)
qed

theorem sceneHeading_rule_witness:
  "detectElementType ''int. house - day'' = SceneHeading"
proof -
  have "''int. house - day'' = ''int'' @ ''. '' @ ''house'' @ '' - '' @ ''day''
        \<and> toUpperCase ''int'' \<in> set scenePrefixes
        \<and> ''. '' \<noteq> [] \<and> list_all (\<lambda>c. isWhiteSpace c \<or> c = CHR ''.'') ''. ''
        \<and> list_all (\<lambda>c. \<not> isLineTerminator c) ''house''
        \<and> '' - '' \<noteq> [] \<and> list_all (\<lambda>c. isWhiteSpace c \<or> c = CHR ''.'' \<or> c = CHR ''-'') '' - ''
        \<and> toUpperCase ''day'' \<in> set timeTokens"
    by code_simp
  then show ?thesis unfolding sceneHeading_rule [of "''int. house - day''"] by blast
qed

section \<open>The greedy wrap\<close>

subsection \<open>split\<close>

lemma str_split_append:
  "str_split c (A @ c # B) = str_split c A @ str_split c B"
proof (induction A)
  case Nil
  show ?case by simp
next
  case (Cons a A)
  show ?case
  proof (cases "a = c")
    case True
    with Cons show ?thesis by simp
  next
    case False
    obtain w ws where s: "str_split c A = w # ws"
      using str_split_nonempty [of c A] by (cases "str_split c A") auto
    with False Cons show ?thesis by simp
  qed
qed

lemma str_split_part:
  "L \<in> set (str_split c P) \<Longrightarrow> length L \<le> length P \<and> set L \<subseteq> set P"
proof (induction P arbitrary: L)
  case Nil
  then show ?case by simp
next
  case (Cons a P)
  show ?case
  proof (cases "a = c")
    case True
    with Cons show ?thesis by (auto simp: le_Suc_eq)
  next
    case False
    obtain w ws where s: "str_split c P = w # ws"
      using str_split_nonempty [of c P] by (cases "str_split c P") auto
    have "length w \<le> length P \<and> set w \<subseteq> set P" using Cons.IH [of w] s by simp
    moreover have "\<And>x. x \<in> set ws \<Longrightarrow> length x \<le> length P \<and> set x \<subseteq> set P"
      using Cons.IH s by simp
    ultimately show ?thesis using Cons.prems False s by (auto simp: le_Suc_eq)
  qed
qed

lemma str_join_split:
  "str_join [d] (str_split c s) = map (\<lambda>x. if x = c then d else x) s"
proof (induction s)
  case Nil
  show ?case by simp
next
  case (Cons a s)
  obtain w ws where s: "str_split c s = w # ws"
    using str_split_nonempty [of c s] by (cases "str_split c s") auto
  with Cons show ?case by (cases ws) (auto simp: str_join_Cons)
qed

lemma str_join_split_same: "str_join [c] (str_split c s) = s"
  by (simp add: str_join_split map_idI)

lemma concat_with_sep:
  "xs \<noteq> [] \<Longrightarrow> concat (map (\<lambda>w. w @ sep) xs) = str_join sep xs @ sep"
  by (induction sep xs rule: str_join.induct) simp_all

lemma str_split_none: "c \<notin> set s \<Longrightarrow> str_split c s = [s]"
  by (induction s) auto

lemma trim_snoc_white: "isWhiteSpace c \<Longrightarrow> trim (xs @ [c]) = trim xs"
proof (cases "\<forall>x\<in>set xs. isWhiteSpace x")
  case True
  assume w: "isWhiteSpace c"
  from True have a: "dropWhile isWhiteSpace xs = []" by simp
  from True w have b: "dropWhile isWhiteSpace (xs @ [c]) = []" by simp
  show ?thesis unfolding trim_def a b by simp
next
  case False
  assume w: "isWhiteSpace c"
  from False have a: "dropWhile isWhiteSpace (xs @ [c]) = dropWhile isWhiteSpace xs @ [c]"
    by auto
  show ?thesis unfolding trim_def a using w by simp
qed

subsection \<open>The loop of the wrap\<close>

lemma length_trim: "length (trim s) \<le> length s"
  unfolding trim_def
  using length_dropWhile_le [of isWhiteSpace "rev (dropWhile isWhiteSpace s)"]
    length_dropWhile_le [of isWhiteSpace s]
  by simp

lemma isWhiteSpace_space: "isWhiteSpace (CHR '' '')"
  by (simp add: isWhiteSpace_def)

lemma split_pieces:
  "set (str_split c (concat (map (\<lambda>P. P @ [c]) Ps) @ X)) =
     (\<Union>P\<in>set Ps. set (str_split c P)) \<union> set (str_split c X)"
proof (induction Ps)
  case Nil
  show ?case by simp
next
  case (Cons P Ps)
  have "str_split c (concat (map (\<lambda>P. P @ [c]) (P # Ps)) @ X) =
          str_split c P @ str_split c (concat (map (\<lambda>P. P @ [c]) Ps) @ X)"
    using str_split_append [of c P "concat (map (\<lambda>P. P @ [c]) Ps) @ X"] by simp
  with Cons show ?case by auto
qed

text \<open>A closed line is short enough, or it has no space.\<close>

lemma wrap_fold_width:
  assumes "\<forall>w\<in>set ws. CHR '' '' \<notin> set w"
    and "result = concat (map (\<lambda>P. P @ [CHR 0x0A]) Ps)"
    and "\<forall>P\<in>set Ps. length P \<le> W \<or> CHR '' '' \<notin> set P"
    and "line = [] \<or> (\<exists>body. line = body @ '' '' \<and> (length body \<le> W \<or> CHR '' '' \<notin> set body))"
    and "fold (wrapStep W) ws (result, line) = (result', line')"
  shows "\<exists>Qs. result' = concat (map (\<lambda>P. P @ [CHR 0x0A]) Qs)
            \<and> (\<forall>P\<in>set Qs. length P \<le> W \<or> CHR '' '' \<notin> set P)
            \<and> (length (trim line') \<le> W \<or> CHR '' '' \<notin> set (trim line'))"
  using assms
proof (induction ws arbitrary: result line Ps)
  case Nil
  have "length (trim line) \<le> W \<or> CHR '' '' \<notin> set (trim line)"
  proof (cases "line = []")
    case True
    then show ?thesis by simp
  next
    case False
    with Nil.prems(4) obtain body where b: "line = body @ '' ''"
      and q: "length body \<le> W \<or> CHR '' '' \<notin> set body" by blast
    have t: "trim line = trim body" unfolding b by (rule trim_snoc_white [OF isWhiteSpace_space])
    from q show ?thesis
      using length_trim [of body] set_trim [of body] unfolding t by auto
  qed
  with Nil show ?case by auto
next
  case (Cons word ws)
  have piece: "length (trim line) \<le> W \<or> CHR '' '' \<notin> set (trim line)"
  proof (cases "line = []")
    case True
    then show ?thesis by simp
  next
    case False
    with Cons.prems(4) obtain body where b: "line = body @ '' ''"
      and q: "length body \<le> W \<or> CHR '' '' \<notin> set body" by blast
    have t: "trim line = trim body" unfolding b by (rule trim_snoc_white [OF isWhiteSpace_space])
    from q show ?thesis
      using length_trim [of body] set_trim [of body] unfolding t by auto
  qed
  from Cons.prems(1) have nosp: "CHR '' '' \<notin> set word" and rest: "\<forall>w\<in>set ws. CHR '' '' \<notin> set w"
    by simp_all
  show ?case
  proof (cases "length (line @ word) > W")
    case True
    then have step: "wrapStep W word (result, line) = (result @ trim line @ [CHR 0x0A], word @ '' '')"
      by (simp add: wrapStep_def)
    have r: "result @ trim line @ [CHR 0x0A] = concat (map (\<lambda>P. P @ [CHR 0x0A]) (Ps @ [trim line]))"
      using Cons.prems(2) by simp
    have ps: "\<forall>P\<in>set (Ps @ [trim line]). length P \<le> W \<or> CHR '' '' \<notin> set P"
      using Cons.prems(3) piece by auto
    have l: "word @ '' '' = [] \<or> (\<exists>body. word @ '' '' = body @ '' '' \<and> (length body \<le> W \<or> CHR '' '' \<notin> set body))"
      using nosp by blast
    from Cons.prems(5) have "fold (wrapStep W) ws (result @ trim line @ [CHR 0x0A], word @ '' '') = (result', line')"
      by (simp add: step)
    from Cons.IH [OF rest r ps l this] show ?thesis .
  next
    case False
    then have step: "wrapStep W word (result, line) = (result, line @ word @ '' '')"
      by (simp add: wrapStep_def)
    have l: "line @ word @ '' '' = [] \<or> (\<exists>body. line @ word @ '' '' = body @ '' '' \<and> (length body \<le> W \<or> CHR '' '' \<notin> set body))"
    proof -
      have "line @ word @ '' '' = (line @ word) @ '' '' \<and> length (line @ word) \<le> W"
        using False by simp
      then show ?thesis by blast
    qed
    from Cons.prems(5) have "fold (wrapStep W) ws (result, line @ word @ '' '') = (result', line')"
      by (simp add: step)
    from Cons.IH [OF rest Cons.prems(2) Cons.prems(3) l this] show ?thesis .
  qed
qed

lemma wrapText_width:
  assumes "L \<in> set (str_split (CHR 0x0A) (wrapText text W))"
  shows "length L \<le> W \<or> CHR '' '' \<notin> set L"
proof (cases "length text \<le> W")
  case True
  with assms have "L \<in> set (str_split (CHR 0x0A) text)" by (simp add: wrapText_def)
  then have "length L \<le> length text" by (simp add: str_split_part)
  with True show ?thesis by simp
next
  case False
  obtain result line where f: "fold (wrapStep W) (str_split (CHR '' '') text) ([], []) = (result, line)"
    by (cases "fold (wrapStep W) (str_split (CHR '' '') text) ([], [])") auto
  have out: "wrapText text W = result @ trim line" using False f by (simp add: wrapText_def)
  have w: "\<forall>w\<in>set (str_split (CHR '' '') text). CHR '' '' \<notin> set w"
    by (auto dest: str_split_free)
  have "\<exists>Qs. result = concat (map (\<lambda>P. P @ [CHR 0x0A]) Qs)
            \<and> (\<forall>P\<in>set Qs. length P \<le> W \<or> CHR '' '' \<notin> set P)
            \<and> (length (trim line) \<le> W \<or> CHR '' '' \<notin> set (trim line))"
    by (rule wrap_fold_width [OF w _ _ _ f, of "[]"]) simp_all
  then obtain Qs where r: "result = concat (map (\<lambda>P. P @ [CHR 0x0A]) Qs)"
    and q: "\<forall>P\<in>set Qs. length P \<le> W \<or> CHR '' '' \<notin> set P"
    and t: "length (trim line) \<le> W \<or> CHR '' '' \<notin> set (trim line)" by blast
  from assms have "L \<in> (\<Union>P\<in>set Qs. set (str_split (CHR 0x0A) P)) \<union> set (str_split (CHR 0x0A) (trim line))"
    unfolding out r split_pieces .
  then obtain P where p: "length P \<le> W \<or> CHR '' '' \<notin> set P" and lp: "L \<in> set (str_split (CHR 0x0A) P)"
    using q t by blast
  from str_split_part [OF lp] p show ?thesis by auto
qed

text \<open>With words that are not empty and are stripped, no character is lost.\<close>

lemma map_nl_id: "CHR 0x0A \<notin> set s \<Longrightarrow> map (\<lambda>x. if x = CHR 0x0A then CHR '' '' else x) s = s"
  by (rule map_idI) auto

lemma wrap_fold_rejoin:
  assumes "\<forall>w\<in>set ws. w \<noteq> [] \<and> trim w = w \<and> CHR 0x0A \<notin> set w"
    and "line = body @ '' ''" and "body \<noteq> []" and "trim body = body" and "CHR 0x0A \<notin> set body"
    and "fold (wrapStep W) ws (result, line) = (result', line')"
  shows "\<exists>body'. line' = body' @ '' '' \<and> CHR 0x0A \<notin> set body' \<and> trim line' = body'
           \<and> map (\<lambda>x. if x = CHR 0x0A then CHR '' '' else x) result' @ line' =
               map (\<lambda>x. if x = CHR 0x0A then CHR '' '' else x) result @ line
                 @ concat (map (\<lambda>w. w @ '' '') ws)"
  using assms
proof (induction ws arbitrary: result line body)
  case Nil
  have "trim line = body"
    using Nil.prems(2,4) trim_snoc_white [OF isWhiteSpace_space, of body] by simp
  with Nil show ?case by auto
next
  case (Cons word ws)
  let ?f = "\<lambda>x. if x = CHR 0x0A then CHR '' '' else x"
  from Cons.prems(1) have wn: "word \<noteq> []" and wt: "trim word = word" and wl: "CHR 0x0A \<notin> set word"
    and rest: "\<forall>w\<in>set ws. w \<noteq> [] \<and> trim w = w \<and> CHR 0x0A \<notin> set w" by simp_all
  have tl: "trim line = body"
    using Cons.prems(2,4) trim_snoc_white [OF isWhiteSpace_space, of body] by simp
  show ?case
  proof (cases "length (line @ word) > W")
    case True
    then have step: "wrapStep W word (result, line) = (result @ trim line @ [CHR 0x0A], word @ '' '')"
      by (simp add: wrapStep_def)
    from Cons.prems(6) have f: "fold (wrapStep W) ws (result @ trim line @ [CHR 0x0A], word @ '' '') = (result', line')"
      by (simp add: step)
    from Cons.IH [OF rest refl wn wt wl f]
    obtain body' where a: "line' = body' @ '' ''" and b: "CHR 0x0A \<notin> set body'" and c: "trim line' = body'"
      and d: "map ?f result' @ line' =
               map ?f (result @ trim line @ [CHR 0x0A]) @ (word @ '' '') @ concat (map (\<lambda>w. w @ '' '') ws)"
      by blast
    have "map ?f (result @ trim line @ [CHR 0x0A]) = map ?f result @ body @ '' ''"
      using Cons.prems(5) by (simp add: tl map_nl_id)
    then have "map ?f (result @ trim line @ [CHR 0x0A]) = map ?f result @ line"
      using Cons.prems(2) by simp
    with a b c d show ?thesis by simp
  next
    case False
    then have step: "wrapStep W word (result, line) = (result, line @ word @ '' '')"
      by (simp add: wrapStep_def)
    from Cons.prems(6) have f: "fold (wrapStep W) ws (result, line @ word @ '' '') = (result', line')"
      by (simp add: step)
    have l: "line @ word @ '' '' = (line @ word) @ '' ''" by simp
    have n: "line @ word \<noteq> []" using wn by simp
    have "\<not> isWhiteSpace (hd body)" and "\<not> isWhiteSpace (last word)"
      using Cons.prems(3,4) wn wt by (auto simp: trim_fixed)
    then have t: "trim (line @ word) = line @ word"
      using Cons.prems(2,3) wn by (simp add: trim_fixed)
    have nl: "CHR 0x0A \<notin> set (line @ word)" using Cons.prems(2,5) wl by simp
    from Cons.IH [OF rest l n t nl f] show ?thesis by simp
  qed
qed

lemma wrapText_rejoin:
  assumes nl: "CHR 0x0A \<notin> set text"
    and words: "list_all (\<lambda>w. w \<noteq> [] \<and> trim w = w) (str_split (CHR '' '') text)"
    and first: "length (hd (str_split (CHR '' '') text)) \<le> W"
  shows "rejoin (wrapText text W) = text"
proof (cases "length text \<le> W")
  case True
  then show ?thesis using nl by (simp add: wrapText_def rejoin_def str_join_split map_nl_id)
next
  case False
  let ?f = "\<lambda>x. if x = CHR 0x0A then CHR '' '' else x"
  obtain w ws where s: "str_split (CHR '' '') text = w # ws"
    using str_split_nonempty [of "CHR '' ''" "text"] by (cases "str_split (CHR '' '') text") auto
  have inl: "\<forall>x\<in>set (w # ws). CHR 0x0A \<notin> set x"
    using str_split_part [of _ "CHR '' ''" "text"] nl unfolding s [symmetric] by blast
  from words s have ok: "w \<noteq> []" "trim w = w" "\<forall>x\<in>set ws. x \<noteq> [] \<and> trim x = x \<and> CHR 0x0A \<notin> set x"
    using inl by (simp_all add: list_all_iff)
  from first s have "length w \<le> W" by simp
  then have step: "wrapStep W w ([], []) = ([], w @ '' '')" by (simp add: wrapStep_def)
  obtain result line where f: "fold (wrapStep W) ws ([], w @ '' '') = (result, line)"
    by (cases "fold (wrapStep W) ws ([], w @ '' '')") auto
  have out: "wrapText text W = result @ trim line"
    using False f by (simp add: wrapText_def s step)
  from inl have wnl: "CHR 0x0A \<notin> set w" by simp
  from wrap_fold_rejoin [OF ok(3) refl ok(1) ok(2) wnl f]
  obtain body where a: "line = body @ '' ''" and b: "CHR 0x0A \<notin> set body" and c: "trim line = body"
    and d: "map ?f result @ line = map ?f [] @ (w @ '' '') @ concat (map (\<lambda>w. w @ '' '') ws)"
    by blast
  have "map ?f (wrapText text W) @ '' '' = map ?f result @ line"
    using a b c by (simp add: out map_nl_id)
  also have "\<dots> = concat (map (\<lambda>w. w @ '' '') (w # ws))" using d by simp
  also have "\<dots> = str_join '' '' (w # ws) @ '' ''" by (rule concat_with_sep) simp
  also have "str_join '' '' (w # ws) = text" unfolding s [symmetric] by (rule str_join_split_same)
  finally have "map ?f (wrapText text W) = text" by simp
  then show ?thesis by (simp add: rejoin_def str_join_split)
qed

subsection \<open>Splitting what was joined\<close>

lemma str_split_join:
  "xs \<noteq> [] \<Longrightarrow> \<forall>x\<in>set xs. c \<notin> set x \<Longrightarrow> str_split c (str_join [c] xs) = xs"
proof (induction "[c]" xs rule: str_join.induct)
  case 1
  then show ?case by simp
next
  case (2 x)
  then show ?case by (simp add: str_split_none)
next
  case (3 x y ys)
  have "str_split c (str_join [c] (x # y # ys)) = str_split c (x @ c # str_join [c] (y # ys))"
    by simp
  also have "\<dots> = str_split c x @ str_split c (str_join [c] (y # ys))"
    by (rule str_split_append)
  also have "\<dots> = [x] @ (y # ys)" using 3 by (simp add: str_split_none)
  finally show ?case by simp
qed

subsection \<open>The lines of the wrap\<close>

lemma wrapLines_nonempty: "wrapLines W ws line \<noteq> []"
  by (induction ws arbitrary: line) simp_all

lemma wrap_fold_lines:
  "fold (wrapStep W) ws (result, line) = (result', line') \<Longrightarrow>
   result' @ trim line' = result @ str_join [CHR 0x0A] (map trim (wrapLines W ws line))"
proof (induction ws arbitrary: result line)
  case Nil
  then show ?case by simp
next
  case (Cons word ws)
  show ?case
  proof (cases "length (line @ word) > W")
    case True
    then have step: "wrapStep W word (result, line) = (result @ trim line @ [CHR 0x0A], word @ '' '')"
      by (simp add: wrapStep_def)
    from Cons.prems have "fold (wrapStep W) ws (result @ trim line @ [CHR 0x0A], word @ '' '')
        = (result', line')" by (simp add: step)
    from Cons.IH [OF this] True show ?thesis
      using wrapLines_nonempty [of W ws "word @ '' ''"]
      by (simp add: str_join_Cons)
  next
    case False
    then have step: "wrapStep W word (result, line) = (result, line @ word @ '' '')"
      by (simp add: wrapStep_def)
    from Cons.prems have "fold (wrapStep W) ws (result, line @ word @ '' '') = (result', line')"
      by (simp add: step)
    from Cons.IH [OF this] False show ?thesis by simp
  qed
qed

lemma wrapText_lines:
  "length text > W \<Longrightarrow>
   wrapText text W = str_join [CHR 0x0A] (map trim (wrapLines W (str_split (CHR '' '') text) []))"
proof -
  assume long: "length text > W"
  obtain result line where f: "fold (wrapStep W) (str_split (CHR '' '') text) ([], []) = (result, line)"
    by (cases "fold (wrapStep W) (str_split (CHR '' '') text) ([], [])") auto
  from wrap_fold_lines [OF f] long f show ?thesis by (simp add: wrapText_def)
qed

lemma concat_wrapLines:
  "concat (wrapLines W ws line) = line @ concat (map (\<lambda>w. w @ '' '') ws)"
  by (induction ws arbitrary: line) simp_all

lemma wrapLines_shape:
  "line = [] \<or> (\<exists>b. line = b @ '' '') \<Longrightarrow>
   \<forall>L\<in>set (wrapLines W ws line). L = [] \<or> (\<exists>b. L = b @ '' '')"
proof (induction ws arbitrary: line)
  case Nil
  then show ?case by simp
next
  case (Cons word ws)
  have "\<exists>b. word @ '' '' = b @ '' ''" by (rule exI [of _ word]) simp
  then have a: "word @ '' '' = [] \<or> (\<exists>b. word @ '' '' = b @ '' '')" by (rule disjI2)
  have "\<exists>b. line @ word @ '' '' = b @ '' ''" by (rule exI [of _ "line @ word"]) simp
  then have b: "line @ word @ '' '' = [] \<or> (\<exists>b. line @ word @ '' '' = b @ '' '')"
    by (rule disjI2)
  show ?case
  proof (cases "length (line @ word) > W")
    case True
    with Cons.IH [OF a] Cons.prems show ?thesis by simp
  next
    case False
    with Cons.IH [OF b] show ?thesis by simp
  qed
qed

lemma wrapLines_filled:
  "\<exists>b. line = b @ '' '' \<Longrightarrow> \<forall>L\<in>set (wrapLines W ws line). \<exists>b. L = b @ '' ''"
proof (induction ws arbitrary: line)
  case Nil
  then show ?case by simp
next
  case (Cons word ws)
  have a: "\<exists>b. word @ '' '' = b @ '' ''" by (rule exI [of _ word]) simp
  have b: "\<exists>b. line @ word @ '' '' = b @ '' ''" by (rule exI [of _ "line @ word"]) simp
  show ?case
  proof (cases "length (line @ word) > W")
    case True
    with Cons.IH [OF a] Cons.prems show ?thesis by simp
  next
    case False
    with Cons.IH [OF b] show ?thesis by simp
  qed
qed

text \<open>The whole of the words, each followed by a space, is the text followed by a space.\<close>

lemma words_text:
  "concat (map (\<lambda>w. w @ '' '') (str_split (CHR '' '') text)) = text @ '' ''"
  using concat_with_sep [OF str_split_nonempty, of "'' ''" "CHR '' ''" "text"]
  by (simp add: str_join_split_same)

lemma wrapLines_text:
  "concat (wrapLines W (str_split (CHR '' '') text) []) = text @ '' ''"
  unfolding concat_wrapLines words_text by simp

lemma wrapLines_in_text:
  assumes "L \<in> set (wrapLines W (str_split (CHR '' '') text) [])"
  shows "set L \<subseteq> insert (CHR '' '') (set text)"
proof -
  from assms have "set L \<subseteq> set (concat (wrapLines W (str_split (CHR '' '') text) []))"
    by auto
  then show ?thesis unfolding wrapLines_text by simp
qed

lemma wrapText_split:
  assumes nl: "CHR 0x0A \<notin> set text" and long: "length text > W"
  shows "str_split (CHR 0x0A) (wrapText text W)
           = map trim (wrapLines W (str_split (CHR '' '') text) [])"
proof -
  let ?Ls = "wrapLines W (str_split (CHR '' '') text) []"
  have free: "\<forall>x\<in>set (map trim ?Ls). CHR 0x0A \<notin> set x"
  proof
    fix x assume "x \<in> set (map trim ?Ls)"
    then obtain L where L: "L \<in> set ?Ls" and x: "x = trim L" by auto
    from wrapLines_in_text [OF L] nl have "CHR 0x0A \<notin> set L" by auto
    with set_trim [of L] show "CHR 0x0A \<notin> set x" unfolding x by blast
  qed
  have ne: "map trim ?Ls \<noteq> []" using wrapLines_nonempty [of W "str_split (CHR '' '') text" "[]"] by simp
  show ?thesis
    unfolding wrapText_lines [OF long] by (rule str_split_join [OF ne free])
qed

lemma wrapText_lines_trimmed:
  assumes nl: "CHR 0x0A \<notin> set text" and t: "trim text = text"
    and l: "l \<in> set (str_split (CHR 0x0A) (wrapText text W))"
  shows "trim l = l"
proof (cases "length text \<le> W")
  case True
  with l nl t show ?thesis by (simp add: wrapText_def str_split_none)
next
  case False
  then have "str_split (CHR 0x0A) (wrapText text W)
           = map trim (wrapLines W (str_split (CHR '' '') text) [])"
    using nl by (intro wrapText_split) simp_all
  with l obtain L where "l = trim L" by auto
  then show ?thesis by (simp add: trim_idem)
qed

subsection \<open>The words of a text\<close>

lemma splitWhere_nonempty: "splitWhere P s \<noteq> []"
  by (induction s) (auto split: list.splits)

lemma splitWhere_append:
  "P c \<Longrightarrow> splitWhere P (A @ c # B) = splitWhere P A @ splitWhere P B"
proof (induction A)
  case Nil
  then show ?case by simp
next
  case (Cons a A)
  obtain w ws where s: "splitWhere P A = w # ws"
    using splitWhere_nonempty [of P A] by (cases "splitWhere P A") auto
  with Cons show ?case by simp
qed

lemma splitWhere_map:
  assumes "\<And>c. P (f c) = P c" and "\<And>c. \<not> P c \<Longrightarrow> f c = c"
  shows "splitWhere P (map f s) = splitWhere P s"
proof (induction s)
  case Nil
  show ?case by simp
next
  case (Cons a s)
  with assms show ?case by (cases "P a") simp_all
qed

lemma wordsOf_Nil [simp]: "wordsOf [] = []"
  by (simp add: wordsOf_def)

lemma wordsOf_sep:
  "isWhiteSpace c \<Longrightarrow> wordsOf (A @ c # B) = wordsOf A @ wordsOf B"
  by (simp add: wordsOf_def splitWhere_append)

lemma wordsOf_snoc_white: "isWhiteSpace c \<Longrightarrow> wordsOf (A @ [c]) = wordsOf A"
  using wordsOf_sep [of c A "[]"] by simp

lemma wordsOf_Cons_white: "isWhiteSpace c \<Longrightarrow> wordsOf (c # A) = wordsOf A"
  using wordsOf_sep [of c "[]" A] by simp

lemma wordsOf_dropWhile: "wordsOf (dropWhile isWhiteSpace s) = wordsOf s"
  by (induction s) (simp_all add: wordsOf_Cons_white)

lemma wordsOf_dropWhile_end: "wordsOf (rev (dropWhile isWhiteSpace (rev s))) = wordsOf s"
  by (induction s rule: rev_induct) (simp_all add: wordsOf_snoc_white)

lemma wordsOf_trim: "wordsOf (trim s) = wordsOf s"
  unfolding trim_def by (simp add: wordsOf_dropWhile_end wordsOf_dropWhile)

lemma isWhiteSpace_newline: "isWhiteSpace (CHR 0x0A)"
  by (simp add: isWhiteSpace_def)

lemma wordsOf_join_lines:
  "wordsOf (str_join [CHR 0x0A] xs) = concat (map wordsOf xs)"
proof (induction "[CHR 0x0A]" xs rule: str_join.induct)
  case (3 x y ys)
  then show ?case using wordsOf_sep [OF isWhiteSpace_newline] by simp
qed simp_all

lemma wordsOf_concat_lines:
  "\<forall>L\<in>set Ls. L = [] \<or> (\<exists>b. L = b @ '' '') \<Longrightarrow>
   wordsOf (concat Ls) = concat (map wordsOf Ls)"
proof (induction Ls)
  case Nil
  show ?case by simp
next
  case (Cons L Ls)
  then have ih: "wordsOf (concat Ls) = concat (map wordsOf Ls)" by simp
  from Cons.prems have "L = [] \<or> (\<exists>b. L = b @ '' '')" by simp
  then show ?case
  proof
    assume "L = []"
    with ih show ?thesis by simp
  next
    assume "\<exists>b. L = b @ '' ''"
    then obtain b where L: "L = b @ '' ''" by blast
    have "wordsOf (concat (L # Ls)) = wordsOf (b @ CHR '' '' # concat Ls)" by (simp add: L)
    also have "\<dots> = wordsOf b @ wordsOf (concat Ls)"
      by (rule wordsOf_sep [OF isWhiteSpace_space])
    also have "wordsOf b = wordsOf L"
      unfolding L using wordsOf_snoc_white [OF isWhiteSpace_space, of b] by simp
    finally show ?thesis using ih by simp
  qed
qed

lemma wordsOf_rejoin: "wordsOf (rejoin out) = wordsOf out"
proof -
  have "splitWhere isWhiteSpace (map (\<lambda>x. if x = CHR 0x0A then CHR '' '' else x) out)
          = splitWhere isWhiteSpace out"
    by (rule splitWhere_map) (auto simp: isWhiteSpace_newline isWhiteSpace_space)
  then show ?thesis by (simp add: rejoin_def str_join_split wordsOf_def)
qed

lemma wrapText_words: "wordsOf (rejoin (wrapText text W)) = wordsOf text"
proof (cases "length text \<le> W")
  case True
  then show ?thesis by (simp add: wordsOf_rejoin wrapText_def)
next
  case False
  let ?Ls = "wrapLines W (str_split (CHR '' '') text) []"
  have shape: "\<forall>L\<in>set ?Ls. L = [] \<or> (\<exists>b. L = b @ '' '')"
    by (rule wrapLines_shape) simp
  have "wordsOf (wrapText text W) = concat (map wordsOf (map trim ?Ls))"
    using False by (simp add: wrapText_lines wordsOf_join_lines)
  also have "\<dots> = concat (map wordsOf ?Ls)" by (simp add: wordsOf_trim comp_def)
  also have "\<dots> = wordsOf (concat ?Ls)" by (rule wordsOf_concat_lines [OF shape, symmetric])
  also have "\<dots> = wordsOf (text @ '' '')" by (simp only: wrapLines_text)
  also have "\<dots> = wordsOf text" by (rule wordsOf_snoc_white [OF isWhiteSpace_space])
  finally show ?thesis by (simp add: wordsOf_rejoin)
qed

subsection \<open>When the rejoined lines are the text\<close>

lemma trim_same_length: "length (trim s) = length s \<Longrightarrow> trim s = s"
proof -
  assume l: "length (trim s) = length s"
  let ?d = "dropWhile isWhiteSpace s"
  have a: "length (trim s) \<le> length ?d"
    unfolding trim_def using length_dropWhile_le [of isWhiteSpace "rev ?d"] by simp
  have b: "length ?d \<le> length s" by (rule length_dropWhile_le)
  from a b l have "length ?d = length s" by simp
  then have d: "?d = s" by (rule dropWhile_same_length)
  from l have "length (dropWhile isWhiteSpace (rev s)) = length (rev s)"
    by (simp add: trim_def d)
  then have "dropWhile isWhiteSpace (rev s) = rev s" by (rule dropWhile_same_length)
  then show ?thesis by (simp add: trim_def d)
qed

lemma join_trim_count:
  assumes "Ls \<noteq> []" and "\<forall>L\<in>set Ls. \<exists>b. L = b @ '' ''"
  shows "length (str_join [CHR 0x0A] (map trim Ls)) + 1 \<le> length (concat Ls)
         \<and> (length (str_join [CHR 0x0A] (map trim Ls)) + 1 = length (concat Ls)
              \<longrightarrow> map trim Ls = map butlast Ls)"
  using assms
proof (induction Ls rule: list_nonempty_induct)
  case (single L)
  then obtain b where L: "L = b @ '' ''" by auto
  have t: "trim (b @ '' '') = trim b" by (rule trim_snoc_white [OF isWhiteSpace_space])
  show ?case
    using length_trim [of b] trim_same_length [of b] by (simp add: L t)
next
  case (cons L Ls)
  then obtain b where L: "L = b @ '' ''" by auto
  have t: "trim (b @ '' '') = trim b" by (rule trim_snoc_white [OF isWhiteSpace_space])
  from cons have ih: "length (str_join [CHR 0x0A] (map trim Ls)) + 1 \<le> length (concat Ls)
         \<and> (length (str_join [CHR 0x0A] (map trim Ls)) + 1 = length (concat Ls)
              \<longrightarrow> map trim Ls = map butlast Ls)" by simp
  have j: "str_join [CHR 0x0A] (map trim (L # Ls))
             = trim b @ [CHR 0x0A] @ str_join [CHR 0x0A] (map trim Ls)"
    using cons.hyps by (simp add: str_join_Cons L t)
  show ?case
    using ih length_trim [of b] trim_same_length [of b]
    unfolding j by (auto simp: L t)
qed

lemma wrapText_rejoin_iff:
  assumes nl: "CHR 0x0A \<notin> set text"
    and first: "length (hd (str_split (CHR '' '') text)) \<le> W"
  shows "(rejoin (wrapText text W) = text) = (length (wrapText text W) = length text)"
proof
  assume "rejoin (wrapText text W) = text"
  then have "length (rejoin (wrapText text W)) = length text" by simp
  then show "length (wrapText text W) = length text"
    by (simp add: rejoin_def str_join_split)
next
  assume len: "length (wrapText text W) = length text"
  show "rejoin (wrapText text W) = text"
  proof (cases "length text \<le> W")
    case True
    then show ?thesis using nl by (simp add: wrapText_def rejoin_def str_join_split map_nl_id)
  next
    case False
    then have long: "length text > W" by simp
    obtain w ws where s: "str_split (CHR '' '') text = w # ws"
      using str_split_nonempty [of "CHR '' ''" "text"] by (cases "str_split (CHR '' '') text") auto
    let ?Ls = "wrapLines W (str_split (CHR '' '') text) []"
    from first s have Ls: "?Ls = wrapLines W ws (w @ '' '')" by simp
    have "\<exists>b. w @ '' '' = b @ '' ''" by (rule exI [of _ w]) simp
    then have filled: "\<forall>L\<in>set ?Ls. \<exists>b. L = b @ '' ''"
      unfolding Ls by (rule wrapLines_filled)
    have ne: "?Ls \<noteq> []" by (rule wrapLines_nonempty)
    have "length (str_join [CHR 0x0A] (map trim ?Ls)) + 1 = length (concat ?Ls)"
      using len unfolding wrapText_lines [OF long] wrapLines_text by simp
    with join_trim_count [OF ne filled] have tb: "map trim ?Ls = map butlast ?Ls" by blast
    have "rejoin (wrapText text W) = str_join '' '' (map butlast ?Ls)"
      unfolding rejoin_def wrapText_split [OF nl long] tb ..
    moreover have "str_join '' '' (map butlast ?Ls) @ '' '' = text @ '' ''"
    proof -
      have "\<And>L. L \<in> set ?Ls \<Longrightarrow> butlast L @ '' '' = L"
        using filled by auto
      then have "map (\<lambda>L. butlast L @ '' '') ?Ls = ?Ls" by (rule map_idI)
      then have "map (\<lambda>b. b @ '' '') (map butlast ?Ls) = ?Ls" by (simp add: comp_def)
      then have "concat (map (\<lambda>b. b @ '' '') (map butlast ?Ls)) = text @ '' ''"
        by (simp only: wrapLines_text)
      moreover have "map butlast ?Ls \<noteq> []" using ne by simp
      ultimately show ?thesis using concat_with_sep [of "map butlast ?Ls" "'' ''"] by simp
    qed
    ultimately show ?thesis by simp
  qed
qed

text \<open>
  Claim C3, as stated, fails: a closed line is stripped, so white space at the place of
  a line break is lost. In the text below two spaces follow the first sentence, the line
  is closed there, and the rejoined output has one space where the text has two.
\<close>

theorem wrap_rejoin_counterexample:
  "length ''He walks to the window and stares out at the falling rain.  Thunder.'' = 68
   \<and> formatScreenplay ''He walks to the window and stares out at the falling rain.  Thunder.''
       = Inr ''He walks to the window and stares out at the falling rain.\<newline>Thunder.''
   \<and> formatAction ''He walks to the window and stares out at the falling rain.  Thunder.''
       = ''He walks to the window and stares out at the falling rain.\<newline>Thunder.''
   \<and> rejoin (formatAction ''He walks to the window and stares out at the falling rain.  Thunder.'')
       = ''He walks to the window and stares out at the falling rain. Thunder.''
   \<and> rejoin (formatAction ''He walks to the window and stares out at the falling rain.  Thunder.'')
       \<noteq> ''He walks to the window and stares out at the falling rain.  Thunder.''"
  by code_simp

text \<open>
  Claim C3, amended. For every text and width: every line of the wrapped text is at most
  as long as the width or has no space in it (it is a single word longer than the
  width); a text that is at most as long as the width is returned unchanged; the
  lines of the wrapped text, rejoined with single spaces, have the words of the text in
  the same order, a word being a longest run of characters that are not white space;
  for a text without line feed whose first word is not longer than the width, the
  rejoined lines are the text itself exactly when the wrapped text is as long as the
  text, that is when each line break took the place of one space and nothing else was
  stripped; this is so when the pieces of the text between spaces are not empty and are
  stripped. Actions are wrapped at width 60 and dialogue at width 35.
\<close>

theorem wrapText_correct:
  "(\<forall>L\<in>set (str_split (CHR 0x0A) (wrapText text width)).
      length L \<le> width \<or> CHR '' '' \<notin> set L)
   \<and> (length text \<le> width \<longrightarrow> wrapText text width = text)
   \<and> wordsOf (rejoin (wrapText text width)) = wordsOf text
   \<and> (CHR 0x0A \<notin> set text \<and> length (hd (str_split (CHR '' '') text)) \<le> width
      \<longrightarrow> (rejoin (wrapText text width) = text)
            = (length (wrapText text width) = length text))
   \<and> (CHR 0x0A \<notin> set text
        \<and> list_all (\<lambda>w. w \<noteq> [] \<and> trim w = w) (str_split (CHR '' '') text)
        \<and> length (hd (str_split (CHR '' '') text)) \<le> width
      \<longrightarrow> rejoin (wrapText text width) = text)
   \<and> formatAction text = wrapText text 60
   \<and> formatDialogue text = wrapText text 35"
proof -
  have "\<forall>L\<in>set (str_split (CHR 0x0A) (wrapText text width)).
      length L \<le> width \<or> CHR '' '' \<notin> set L"
    using wrapText_width by blast
  moreover have "length text \<le> width \<longrightarrow> wrapText text width = text"
    by (simp add: wrapText_def)
  moreover have "wordsOf (rejoin (wrapText text width)) = wordsOf text"
    by (rule wrapText_words)
  moreover have "CHR 0x0A \<notin> set text \<and> length (hd (str_split (CHR '' '') text)) \<le> width
      \<longrightarrow> (rejoin (wrapText text width) = text)
            = (length (wrapText text width) = length text)"
    using wrapText_rejoin_iff by blast
  moreover have "CHR 0x0A \<notin> set text
        \<and> list_all (\<lambda>w. w \<noteq> [] \<and> trim w = w) (str_split (CHR '' '') text)
        \<and> length (hd (str_split (CHR '' '') text)) \<le> width
      \<longrightarrow> rejoin (wrapText text width) = text"
    using wrapText_rejoin by blast
  ultimately show ?thesis by (simp add: formatAction_def formatDialogue_def)
qed

theorem wrapText_correct_witness:
  "CHR 0x0A \<notin> set ''He walks to the window and stares out at the falling rain. Thunder rolls.''
   \<and> list_all (\<lambda>w. w \<noteq> [] \<and> trim w = w)
        (str_split (CHR '' '') ''He walks to the window and stares out at the falling rain. Thunder rolls.'')
   \<and> length (hd (str_split (CHR '' '')
        ''He walks to the window and stares out at the falling rain. Thunder rolls.'')) \<le> 60
   \<and> wrapText ''He walks to the window and stares out at the falling rain. Thunder rolls.'' 60
       = ''He walks to the window and stares out at the falling rain.\<newline>Thunder rolls.''
   \<and> rejoin (wrapText ''He walks to the window and stares out at the falling rain. Thunder rolls.'' 60)
       = ''He walks to the window and stares out at the falling rain. Thunder rolls.''
   \<and> CHR 0x0A \<notin> set ''He walks to the window.  He stares out at the falling rain and waits.''
   \<and> length (hd (str_split (CHR '' '')
        ''He walks to the window.  He stares out at the falling rain and waits.'')) \<le> 60
   \<and> wrapText ''He walks to the window.  He stares out at the falling rain and waits.'' 60
       = ''He walks to the window.  He stares out at the falling rain\<newline>and waits.''
   \<and> rejoin (wrapText ''He walks to the window.  He stares out at the falling rain and waits.'' 60)
       = ''He walks to the window.  He stares out at the falling rain and waits.''
   \<and> length ''Thunder rolls.'' \<le> 60
   \<and> wrapText ''Thunder rolls.'' 60 = ''Thunder rolls.''"
proof -
  let ?t = "''He walks to the window and stares out at the falling rain. Thunder rolls.''"
  let ?u = "''He walks to the window.  He stares out at the falling rain and waits.''"
  have a: "CHR 0x0A \<notin> set ?t" by code_simp
  have b: "list_all (\<lambda>w. w \<noteq> [] \<and> trim w = w) (str_split (CHR '' '') ?t)" by code_simp
  have c: "length (hd (str_split (CHR '' '') ?t)) \<le> 60" by code_simp
  have d: "wrapText ?t 60 = ''He walks to the window and stares out at the falling rain.\<newline>Thunder rolls.''"
    by code_simp
  have e: "length ''Thunder rolls.'' \<le> 60" by simp
  have f: "CHR 0x0A \<notin> set ?u" by code_simp
  have g: "length (hd (str_split (CHR '' '') ?u)) \<le> 60" by code_simp
  have h: "wrapText ?u 60 = ''He walks to the window.  He stares out at the falling rain\<newline>and waits.''"
    by code_simp
  have i: "length (wrapText ?u 60) = length ?u" unfolding h by simp
  from wrapText_correct [of ?t 60] a b c have "rejoin (wrapText ?t 60) = ?t" by blast
  moreover from wrapText_correct [of ?u 60] f g i have "rejoin (wrapText ?u 60) = ?u" by blast
  moreover from wrapText_correct [of "''Thunder rolls.''" 60] e
  have "wrapText ''Thunder rolls.'' 60 = ''Thunder rolls.''" by blast
  ultimately show ?thesis using a b c d e f g h by blast
qed

section \<open>Blank lines\<close>

text \<open>
  The loop of \<^verbatim>\<open>formatScreenplay\<close> pushes one blank separator for each blank line of
  the input, and none else.
\<close>

lemma blank_items_processLine:
  "length (filter (\<lambda>it. it = Blank) (trace (processLine raw st))) =
     length (filter (\<lambda>it. it = Blank) (trace st)) + (if trim raw = [] then 1 else 0)"
  by (simp add: processLine_def Let_def pushElement_def)

lemma blank_items_fold:
  "length (filter (\<lambda>it. it = Blank) (trace (fold processLine lines st))) =
     length (filter (\<lambda>it. it = Blank) (trace st)) + length (filter (\<lambda>l. trim l = []) lines)"
  by (induction lines arbitrary: st) (simp_all add: blank_items_processLine)

lemma blank_separators_pushed:
  "length (filter (\<lambda>it. it = Blank) (renderedItems s)) = blankLineCount s"
  by (simp add: renderedItems_fold flushLast_def pushElement_def blank_items_fold
      blankLineCount_def initial_def)

text \<open>
  Claim C2 at a line that is one word of 61 letters: the input has no blank line, and
  the output starts with a line feed, so it has one. The first word is longer than the
  width, and \<^verbatim>\<open>_wrapText\<close> closes the line before it while that line is still empty.
\<close>

theorem blank_line_added_by_wrap:
  "blankLineCount (replicate 61 (CHR ''a'')) = 0
   \<and> formatScreenplay (replicate 61 (CHR ''a'')) = Inr (CHR 0x0A # replicate 61 (CHR ''a''))
   \<and> blankLineCount (CHR 0x0A # replicate 61 (CHR ''a'')) = 1"
  by code_simp

section \<open>Formatting twice\<close>

subsection \<open>Uppercase\<close>

lemma translate_cases: "translate xs ys c = c \<or> (c \<in> set xs \<and> translate xs ys c \<in> set ys)"
  by (induction xs ys c rule: translate.induct) auto

lemma translate_outside: "c \<notin> set xs \<Longrightarrow> translate xs ys c = c"
  by (induction xs ys c rule: translate.induct) auto

lemma upper_not_lower:
  "u \<in> set caseUpper \<Longrightarrow> u \<notin> set caseLower"
proof -
  have "list_all (\<lambda>u. u \<notin> set caseLower) caseUpper"
    by code_simp
  then show "u \<in> set caseUpper \<Longrightarrow> u \<notin> set caseLower"
    unfolding list_all_iff by blast
qed

lemma letters_not_white:
  "u \<in> set caseUpper \<union> set caseLower \<Longrightarrow> \<not> isWhiteSpace u"
proof -
  have "list_all (\<lambda>u. \<not> isWhiteSpace u)
          (caseUpper @ caseLower)" by code_simp
  then show "u \<in> set caseUpper \<union> set caseLower
      \<Longrightarrow> \<not> isWhiteSpace u"
    unfolding list_all_iff by auto
qed

lemma toUpperCaseChar_idem: "toUpperCaseChar (toUpperCaseChar c) = toUpperCaseChar c"
  using translate_cases [of caseLower caseUpper c]
  by (auto simp: toUpperCaseChar_def translate_outside upper_not_lower)

lemma toUpperCaseChar_white: "isWhiteSpace (toUpperCaseChar c) = isWhiteSpace c"
  using translate_cases [of caseLower caseUpper c] letters_not_white [of c]
    letters_not_white [of "toUpperCaseChar c"]
  by (auto simp: toUpperCaseChar_def)

lemma toUpperCaseChar_newline: "toUpperCaseChar c = CHR 0x0A \<longleftrightarrow> c = CHR 0x0A"
proof -
  have w: "isWhiteSpace (CHR 0x0A)" by (simp add: isWhiteSpace_def)
  show ?thesis
    using toUpperCaseChar_white [of c] w
      translate_cases [of caseLower caseUpper c] letters_not_white [of c]
    by (auto simp: toUpperCaseChar_def)
qed

lemma newline_toUpperCase: "CHR 0x0A \<in> set (toUpperCase s) \<longleftrightarrow> CHR 0x0A \<in> set s"
proof -
  have "CHR 0x0A \<in> toUpperCaseChar ` set s \<longleftrightarrow> CHR 0x0A \<in> set s"
    using toUpperCaseChar_newline by (metis image_iff)
  then show ?thesis by (simp add: toUpperCase_def)
qed

lemma toUpperCase_idem: "toUpperCase (toUpperCase s) = toUpperCase s"
  by (simp add: toUpperCase_def toUpperCaseChar_idem)

lemma bufferedLine_toUpperCase: "bufferedLine t \<Longrightarrow> bufferedLine (toUpperCase t)"
  using newline_toUpperCase [of t]
  by (auto simp: bufferedLine_def trim_fixed toUpperCase_def hd_map last_map
      toUpperCaseChar_white)

subsection \<open>The lines of a run\<close>

lemma trace_processLine_flush: "trace (flushLast (processLine x st)) \<noteq> []"
  by (simp add: processLine_def Let_def flushLast_def pushElement_def)

lemma trace_run_nonempty:
  "lines \<noteq> [] \<Longrightarrow> trace (flushLast (fold processLine lines st)) \<noteq> []"
proof (induction lines rule: rev_induct)
  case Nil
  then show ?case by simp
next
  case (snoc x xs)
  show ?case by (simp add: trace_processLine_flush)
qed

subsection \<open>The lines of a rendered block\<close>

lemma str_split_join_lines:
  "xs \<noteq> [] \<Longrightarrow> str_split c (str_join [c] xs) = concat (map (str_split c) xs)"
proof (induction "[c]" xs rule: str_join.induct)
  case 1
  then show ?case by simp
next
  case (2 x)
  show ?case by simp
next
  case (3 x y ys)
  have "str_split c (str_join [c] (x # y # ys)) = str_split c (x @ c # str_join [c] (y # ys))"
    by simp
  also have "\<dots> = str_split c x @ str_split c (str_join [c] (y # ys))"
    by (rule str_split_append)
  finally show ?case using 3 by simp
qed

lemma bufferedLine_lines:
  "bufferedLine r \<Longrightarrow> l \<in> set (str_split (CHR 0x0A) r) \<Longrightarrow> trim l = l"
  by (simp add: bufferedLine_def str_split_none)

lemma rendered_lines_trimmed:
  assumes b: "blockOf k t ls" and l: "l \<in> set (str_split (CHR 0x0A) (formatElement k t))"
  shows "trim l = l"
proof -
  from b have bt: "bufferedLine t" by (rule blockOf_bufferedLine)
  from b obtain x where "k = Some (detectElementType x)"
    by (cases ls) (auto simp: blockOf_def)
  then obtain kk where k: "k = Some kk" and nd: "kk \<noteq> Dialogue"
    by (simp add: detect_not_Dialogue)
  show ?thesis
  proof (cases kk)
    case SceneHeading
    with k l bufferedLine_toUpperCase [OF bt] show ?thesis
      by (simp add: formatSceneHeading_def bufferedLine_lines)
  next
    case Character
    with k l bufferedLine_toUpperCase [OF bt] show ?thesis
      by (simp add: formatCharacter_def bufferedLine_lines)
  next
    case Parenthetical
    with k b have "formatParenthetical t = t"
      using blockOf_Parenthetical(1,2) [of t ls] by (simp add: formatParenthetical_fixed)
    with Parenthetical k l bt show ?thesis by (simp add: bufferedLine_lines)
  next
    case Dialogue
    with nd show ?thesis by simp
  next
    case Transition
    with k l bufferedLine_toUpperCase [OF bt] show ?thesis
      by (simp add: formatTransition_def bufferedLine_lines)
  next
    case Technical
    with k l bufferedLine_toUpperCase [OF bt] show ?thesis
      by (simp add: formatTechnical_def bufferedLine_lines)
  next
    case Action
    with k l have "l \<in> set (str_split (CHR 0x0A) (wrapText t 60))"
      by (simp add: formatAction_def)
    with bt show ?thesis
      by (intro wrapText_lines_trimmed [of t l 60]) (simp_all add: bufferedLine_def)
  qed
qed

subsection \<open>The loop over the lines of one item\<close>

lemma same_kind_lines:
  assumes "currentElement st = Some kk"
    and "\<forall>l\<in>set ls. l \<noteq> [] \<and> trim l = l \<and> detectElementType l = kk"
  shows "fold processLine ls st = st\<lparr>lineBuffer := lineBuffer st @ ls\<rparr>"
  using assms
proof (induction ls arbitrary: st)
  case Nil
  show ?case by simp
next
  case (Cons l ls)
  then have p: "processLine l st = st\<lparr>lineBuffer := lineBuffer st @ [l]\<rparr>"
    by (simp add: processLine_def Let_def)
  have "fold processLine ls (st\<lparr>lineBuffer := lineBuffer st @ [l]\<rparr>)
          = (st\<lparr>lineBuffer := lineBuffer st @ [l]\<rparr>)
              \<lparr>lineBuffer := lineBuffer (st\<lparr>lineBuffer := lineBuffer st @ [l]\<rparr>) @ ls\<rparr>"
    using Cons.IH [of "st\<lparr>lineBuffer := lineBuffer st @ [l]\<rparr>"] Cons.prems by simp
  then show ?case by (simp add: p)
qed

lemma first_line:
  assumes "l \<noteq> []" and "trim l = l" and "detectElementType l = kk"
    and "lineBuffer st = [] \<or> currentElement st \<noteq> Some kk"
  shows "processLine l st = (flushLast st)\<lparr>currentElement := Some kk, lineBuffer := [l]\<rparr>"
  using assms
  by (intro fstate.equality) (auto simp: processLine_def Let_def flushLast_def pushElement_def)

lemma block_lines:
  assumes "ls \<noteq> []"
    and "\<forall>l\<in>set ls. l \<noteq> [] \<and> trim l = l \<and> detectElementType l = kk"
    and "lineBuffer st = [] \<or> currentElement st \<noteq> Some kk"
  shows "fold processLine ls st = (flushLast st)\<lparr>currentElement := Some kk, lineBuffer := ls\<rparr>"
proof -
  from assms(1) obtain l rest where ls: "ls = l # rest" by (cases ls) auto
  with assms(2) have l: "l \<noteq> []" "trim l = l" "detectElementType l = kk"
    and rest: "\<forall>l\<in>set rest. l \<noteq> [] \<and> trim l = l \<and> detectElementType l = kk" by simp_all
  let ?st = "(flushLast st)\<lparr>currentElement := Some kk, lineBuffer := [l]\<rparr>"
  have "fold processLine ls st = fold processLine rest ?st"
    using first_line [OF l assms(3)] by (simp add: ls)
  also have "\<dots> = ?st\<lparr>lineBuffer := lineBuffer ?st @ rest\<rparr>"
    using same_kind_lines [of ?st kk rest] rest by simp
  finally show ?thesis by (simp add: ls)
qed

lemma blank_line:
  "trace (flushLast (processLine [] st)) = trace (flushLast st) @ [Blank]
   \<and> lineBuffer (processLine [] st) = []"
  by (simp add: processLine_def flushLast_def pushElement_def)

subsection \<open>The second run\<close>

lemma adjacentDiffer_tail: "adjacentDiffer (x # xs) \<Longrightarrow> adjacentDiffer xs"
  by (cases x; cases xs) (auto split: item.splits elim: adjacentDiffer.elims)

lemma second_run:
  assumes "\<forall>it\<in>set its. \<forall>k t. it = Block k t \<longrightarrow>
             (\<forall>l\<in>set (itemLines it). l \<noteq> [] \<and> trim l = l \<and> Some (detectElementType l) = k)"
    and "adjacentDiffer its"
    and "\<forall>k t rest. its = Block k t # rest \<longrightarrow> lineBuffer st = [] \<or> currentElement st \<noteq> k"
  shows "trace (flushLast (fold processLine (concat (map itemLines its)) st))
           = trace (flushLast st) @ map rerunItem its"
  using assms
proof (induction its arbitrary: st)
  case Nil
  show ?case by simp
next
  case (Cons it its)
  from Cons.prems(1) have good: "\<forall>it\<in>set its. \<forall>k t. it = Block k t \<longrightarrow>
             (\<forall>l\<in>set (itemLines it). l \<noteq> [] \<and> trim l = l \<and> Some (detectElementType l) = k)"
    by simp
  from Cons.prems(2) have adj: "adjacentDiffer its" by (rule adjacentDiffer_tail)
  show ?case
  proof (cases it)
    case Blank
    let ?st = "processLine [] st"
    have start: "\<forall>k t rest. its = Block k t # rest \<longrightarrow> lineBuffer ?st = [] \<or> currentElement ?st \<noteq> k"
      using blank_line [of st] by simp
    have "trace (flushLast (fold processLine (concat (map itemLines (it # its))) st))
            = trace (flushLast (fold processLine (concat (map itemLines its)) ?st))"
      by (simp add: Blank itemLines_def)
    also have "\<dots> = trace (flushLast ?st) @ map rerunItem its"
      by (rule Cons.IH [OF good adj start])
    finally show ?thesis using blank_line [of st] by (simp add: Blank)
  next
    case (Block k t)
    let ?ls = "itemLines it"
    have ne: "?ls \<noteq> []" by (simp add: itemLines_def str_split_nonempty)
    from Cons.prems(1) Block
    have lines: "\<forall>l\<in>set ?ls. l \<noteq> [] \<and> trim l = l \<and> Some (detectElementType l) = k" by simp
    with ne obtain kk where k: "k = Some kk"
      by (cases ?ls) auto
    with lines have lines': "\<forall>l\<in>set ?ls. l \<noteq> [] \<and> trim l = l \<and> detectElementType l = kk"
      by simp
    from Cons.prems(3) Block k have "lineBuffer st = [] \<or> currentElement st \<noteq> Some kk" by simp
    from block_lines [OF ne lines' this]
    have f: "fold processLine ?ls st = (flushLast st)\<lparr>currentElement := Some kk, lineBuffer := ?ls\<rparr>" .
    let ?st = "(flushLast st)\<lparr>currentElement := Some kk, lineBuffer := ?ls\<rparr>"
    have start: "\<forall>k' t' rest. its = Block k' t' # rest \<longrightarrow> lineBuffer ?st = [] \<or> currentElement ?st \<noteq> k'"
      using Cons.prems(2) Block k by auto
    have tr: "trace (flushLast ?st) = trace (flushLast st) @ [rerunItem it]"
      using ne by (simp add: flushLast_def pushElement_def Block k itemLines_def)
    have "trace (flushLast (fold processLine (concat (map itemLines (it # its))) st))
            = trace (flushLast (fold processLine (concat (map itemLines its)) ?st))"
      by (simp add: f)
    also have "\<dots> = trace (flushLast ?st) @ map rerunItem its"
      by (rule Cons.IH [OF good adj start])
    finally show ?thesis by (simp add: tr)
  qed
qed

subsection \<open>A stable run formats to a fixed point\<close>

lemma kindOf_rerunItem: "kindOf (rerunItem it) = kindOf it"
  by (cases it) simp_all

text \<open>
  Claim C1, as stated, fails, in two ways. A transition in lower case followed by a
  character cue is formatted to two lines; the first, now in upper case, matches the
  character pattern, which is looked at before the transition pattern, so formatting the
  output again puts the two lines in one block and joins them with a space. And an
  action of 61 characters with two spaces before its last word is wrapped to two lines;
  the lines are stripped, so the second run joins them to a text of 60 characters, which
  it does not wrap.
\<close>

theorem formatScreenplay_not_idempotent_counterexample:
  "formatScreenplay ''fade out\<newline>JOHN'' = Inr ''FADE OUT\<newline>JOHN''
   \<and> renderedItems ''fade out\<newline>JOHN'' = [Block (Some Transition) ''fade out'', Block (Some Character) ''JOHN'']
   \<and> formatScreenplay ''FADE OUT\<newline>JOHN'' = Inr ''FADE OUT JOHN''
   \<and> renderedItems ''FADE OUT\<newline>JOHN'' = [Block (Some Character) ''FADE OUT JOHN'']
   \<and> formatScreenplay ''He walks to the window and stares at the falling rain.  Wind.''
       = Inr ''He walks to the window and stares at the falling rain.\<newline>Wind.''
   \<and> formatScreenplay ''He walks to the window and stares at the falling rain.\<newline>Wind.''
       = Inr ''He walks to the window and stares at the falling rain. Wind.''"
  by code_simp

text \<open>
  Claim C1, amended. Formatting the output of \<^verbatim>\<open>formatScreenplay\<close> again gives the
  same output for every input whose run is stable: every line of the rendering of every
  block is filled and is classified as the kind the block was rendered from, and the
  lines of the rendering of every block, joined with single spaces and rendered again,
  give the same rendering. For such an input the second run makes, for each block of the
  first run, one block of the same kind out of the lines of its rendering, joined with
  single spaces, and it has the blank separators of the first run at the same places;
  so the kinds of the second run are the kinds of the first. A block wrapped to several
  lines is a block of several lines in the second run, not one block for each line. The
  statement is made for inputs without the micro sign, the sharp s and the y with
  diaeresis, whose uppercase forms are no Latin-1 characters.
\<close>

theorem formatScreenplay_idempotent_on_stable:
  assumes chars: "list_all upperCaseModelled rawScreenplay"
    and stable: "list_all stableItem (renderedItems rawScreenplay)"
    and out: "formatScreenplay rawScreenplay = Inr out"
  shows "formatScreenplay out = Inr out
         \<and> renderedItems out = map rerunItem (renderedItems rawScreenplay)
         \<and> map kindOf (renderedItems out) = map kindOf (renderedItems rawScreenplay)"
proof -
  let ?st = "flushLast (fold processLine (str_split (CHR 0x0A) rawScreenplay) initial)"
  let ?items = "trace ?st"
  let ?rs = "map renderItem ?items"
  have inv: "invariant (fold processLine (str_split (CHR 0x0A) rawScreenplay) initial)"
    by (rule invariant_lines)
  have wf: "list_all wellFormedItem ?items" by (rule invariant_flushLast(1) [OF inv])
  have adj: "adjacentDiffer ?items" by (rule invariant_flushLast(2) [OF inv])
  have fl: "formattedLines ?st = ?rs" by (rule invariant_flushLast(3) [OF inv])
  have st: "list_all stableItem ?items" using stable by (simp add: renderedItems_fold)
  have o: "out = str_join [CHR 0x0A] ?rs"
    using out by (simp add: formatScreenplay_fold fl)
  have "?items \<noteq> []" by (rule trace_run_nonempty [OF str_split_nonempty])
  then have ne: "?rs \<noteq> []" by simp
  have split: "str_split (CHR 0x0A) out = concat (map itemLines ?items)"
    unfolding o str_split_join_lines [OF ne] by (simp add: itemLines_def [abs_def] comp_def)
  have good: "\<forall>it\<in>set ?items. \<forall>k t. it = Block k t \<longrightarrow>
             (\<forall>l\<in>set (itemLines it). l \<noteq> [] \<and> trim l = l \<and> Some (detectElementType l) = k)"
  proof (intro ballI allI impI)
    fix it k t l
    assume it: "it \<in> set ?items" and b: "it = Block k t" and l: "l \<in> set (itemLines it)"
    from wf it b have "wellFormedItem (Block k t)" unfolding list_all_iff by blast
    then obtain ls where bo: "blockOf k t ls" by auto
    from l b have l': "l \<in> set (str_split (CHR 0x0A) (formatElement k t))"
      by (simp add: itemLines_def)
    from st it b have "stableItem (Block k t)" unfolding list_all_iff by blast
    then have "list_all (\<lambda>l. l \<noteq> [] \<and> Some (detectElementType l) = k)
        (str_split (CHR 0x0A) (formatElement k t))" by simp
    with l' have "l \<noteq> [] \<and> Some (detectElementType l) = k" unfolding list_all_iff by blast
    with rendered_lines_trimmed [OF bo l']
    show "l \<noteq> [] \<and> trim l = l \<and> Some (detectElementType l) = k" by simp
  qed
  have start: "\<forall>k t rest. ?items = Block k t # rest \<longrightarrow>
                 lineBuffer initial = [] \<or> currentElement initial \<noteq> k"
    by (simp add: initial_def)
  let ?st2 = "flushLast (fold processLine (str_split (CHR 0x0A) out) initial)"
  have tr2: "trace ?st2 = map rerunItem ?items"
    unfolding split using second_run [OF good adj start]
    by (simp add: flushLast_def initial_def)
  have inv2: "invariant (fold processLine (str_split (CHR 0x0A) out) initial)"
    by (rule invariant_lines)
  have "formattedLines ?st2 = map renderItem (map rerunItem ?items)"
    using invariant_flushLast(3) [OF inv2] by (simp only: tr2)
  also have "\<dots> = ?rs"
  proof -
    have "\<And>it. it \<in> set ?items \<Longrightarrow> renderItem (rerunItem it) = renderItem it"
    proof -
      fix it assume "it \<in> set ?items"
      with st have "stableItem it" unfolding list_all_iff by blast
      then show "renderItem (rerunItem it) = renderItem it" by (cases it) simp_all
    qed
    then show ?thesis by simp
  qed
  finally have "formatScreenplay out = Inr out"
    by (simp add: formatScreenplay_fold o)
  moreover have "renderedItems out = map rerunItem (renderedItems rawScreenplay)"
    by (simp add: renderedItems_fold tr2)
  moreover have "map kindOf (renderedItems out) = map kindOf (renderedItems rawScreenplay)"
    by (simp add: renderedItems_fold tr2 comp_def kindOf_rerunItem)
  ultimately show ?thesis by simp
qed

theorem formatScreenplay_idempotent_on_stable_witness:
  "list_all upperCaseModelled
      ''int. house - day\<newline>\<newline>He walks to the window and stares out at the falling rain. Thunder rolls.\<newline>\<newline>JOHN\<newline>She never came back, and the house has been empty ever since that winter.\<newline>''
   \<and> list_all stableItem (renderedItems
      ''int. house - day\<newline>\<newline>He walks to the window and stares out at the falling rain. Thunder rolls.\<newline>\<newline>JOHN\<newline>She never came back, and the house has been empty ever since that winter.\<newline>'')
   \<and> formatScreenplay
      ''int. house - day\<newline>\<newline>He walks to the window and stares out at the falling rain. Thunder rolls.\<newline>\<newline>JOHN\<newline>She never came back, and the house has been empty ever since that winter.\<newline>''
     = Inr ''INT. HOUSE - DAY\<newline>\<newline>He walks to the window and stares out at the falling rain.\<newline>Thunder rolls.\<newline>\<newline>JOHN\<newline>She never came back, and the house has been empty ever since\<newline>that winter.\<newline>''
   \<and> formatScreenplay
      ''INT. HOUSE - DAY\<newline>\<newline>He walks to the window and stares out at the falling rain.\<newline>Thunder rolls.\<newline>\<newline>JOHN\<newline>She never came back, and the house has been empty ever since\<newline>that winter.\<newline>''
     = Inr ''INT. HOUSE - DAY\<newline>\<newline>He walks to the window and stares out at the falling rain.\<newline>Thunder rolls.\<newline>\<newline>JOHN\<newline>She never came back, and the house has been empty ever since\<newline>that winter.\<newline>''"
proof -
  let ?s = "''int. house - day\<newline>\<newline>He walks to the window and stares out at the falling rain. Thunder rolls.\<newline>\<newline>JOHN\<newline>She never came back, and the house has been empty ever since that winter.\<newline>''"
  let ?o = "''INT. HOUSE - DAY\<newline>\<newline>He walks to the window and stares out at the falling rain.\<newline>Thunder rolls.\<newline>\<newline>JOHN\<newline>She never came back, and the house has been empty ever since\<newline>that winter.\<newline>''"
  have a: "list_all upperCaseModelled ?s" by code_simp
  have b: "list_all stableItem (renderedItems ?s)" by code_simp
  have c: "formatScreenplay ?s = Inr ?o" by code_simp
  from formatScreenplay_idempotent_on_stable [OF a b c] a b c show ?thesis by simp
qed

section \<open>The reserved operations are stubs\<close>

text \<open>
  Claim C9. For every input string, \<^verbatim>\<open>validateFormat\<close> returns a result whose
  \<open>valid\<close> is true and whose list of issues is empty, and for every input string and
  every list of issues \<^verbatim>\<open>fixFormatIssues\<close> returns its input text unchanged.
\<close>

theorem reserved_operations_are_stubs:
  "validateFormat screenplay = \<lparr>valid = True, issues = []\<rparr>
   \<and> fixFormatIssues screenplay found = screenplay"
  by (simp add: validateFormat_def fixFormatIssues_def)

end
